theory Spec2Isabelle
  imports Complex_Main "HOL-Library.AList" "HOL-Library.Multiset"
begin

section \<open>Data model (app/models.py)\<close>

text \<open>
  Metadata is a Python \<^verbatim>\<open>Dict[str, Any]\<close>.  Two dictionaries are equal in Python when they
  hold the same keys with the same values, whatever the insertion order, so an attribute
  dictionary is a map.  The values that occur are JSON scalars.
\<close>

datatype pyval = PNone | PBool bool | PInt int | PStr string

type_synonym attrs = "string \<rightharpoonup> pyval"

record NodeCreate =
  nc_id :: string
  nc_text :: string
  nc_metadata :: attrs

text \<open>
  A Python float is a number, an infinity or NaN.  (A number stands for itself: the
  weight of an edge is only stored, never computed with.)
\<close>

datatype pyfloat = Num real | PosInf | NegInf | NaN

record EdgeCreate =
  ec_source :: string
  ec_target :: string
  ec_type :: string
  ec_weight :: pyfloat

section \<open>The graph store (app/graph_engine.py)\<close>

text \<open>
  \<^verbatim>\<open>GraphEngine\<close> holds a \<^verbatim>\<open>networkx.DiGraph\<close> and a SQLite connection.

  \<^item> \<open>graph_node\<close> is the DiGraph's node dictionary (node id to attribute dictionary).
  \<^item> \<open>graph_adj\<close> is the DiGraph's adjacency: one entry per ordered pair \<open>(u, v)\<close>, in the
    order the pairs were first inserted, carrying the edge's attribute dictionary
    \<^verbatim>\<open>{type, weight}\<close>.  A DiGraph keeps one edge per ordered pair.
  \<^item> \<open>conn_nodes\<close>, \<open>conn_edges\<close> are the tables \<^verbatim>\<open>nodes\<close> (primary key id) and
    \<^verbatim>\<open>edges\<close> (primary key source, target, type) as the connection sees them, pending
    writes included.  The metadata column holds \<^verbatim>\<open>json.dumps(metadata)\<close>; it is
    represented by the dictionary it encodes.  The weight column is a REAL: it holds a
    float that is not NaN, or NULL (\<open>None\<close>).
  \<^item> \<open>disk_nodes\<close>, \<open>disk_edges\<close> are the committed tables.
\<close>

record GraphEngine =
  graph_node :: "string \<rightharpoonup> attrs"
  graph_adj :: "((string \<times> string) \<times> (string \<times> pyfloat)) list"
  conn_nodes :: "string \<rightharpoonup> attrs"
  conn_edges :: "(string \<times> string \<times> string) \<rightharpoonup> pyfloat option"
  disk_nodes :: "string \<rightharpoonup> attrs"
  disk_edges :: "(string \<times> string \<times> string) \<rightharpoonup> pyfloat option"

text \<open>The engine constructed over an empty database file.\<close>

definition empty_engine :: GraphEngine where
  "empty_engine =
     \<lparr>graph_node = Map.empty, graph_adj = [],
      conn_nodes = Map.empty, conn_edges = Map.empty,
      disk_nodes = Map.empty, disk_edges = Map.empty\<rparr>"

subsection \<open>networkx primitives\<close>

text \<open>
  \<^verbatim>\<open>DiGraph.add_node(n, **attr)\<close>: a new node gets the attributes; for a node already
  present the call is \<^verbatim>\<open>self._node[n].update(attr)\<close>, which keeps every old key that
  \<open>attr\<close> does not mention.  (The metadata is passed as keyword arguments; a metadata key
  that is the name of a parameter of add_node makes the call raise before anything is
  changed.  Such metadata is not part of the model.)
\<close>

definition nx_add_node :: "string \<Rightarrow> attrs \<Rightarrow> GraphEngine \<Rightarrow> GraphEngine" where
  "nx_add_node n attr s =
     s\<lparr>graph_node := (graph_node s)
          (n \<mapsto> (case graph_node s n of None \<Rightarrow> attr | Some old \<Rightarrow> old ++ attr))\<rparr>"

text \<open>
  \<^verbatim>\<open>DiGraph.add_edge(u, v, type=t, weight=w)\<close>: both endpoints become nodes (with no
  attributes) when they are not nodes yet, and the attribute dictionary of the pair
  \<open>(u, v)\<close> is updated with both keys, so it is \<^verbatim>\<open>{type: t, weight: w}\<close> afterwards.
\<close>

definition ensure_node :: "string \<Rightarrow> (string \<rightharpoonup> attrs) \<Rightarrow> (string \<rightharpoonup> attrs)" where
  "ensure_node n nd = (case nd n of None \<Rightarrow> nd(n \<mapsto> Map.empty) | Some a \<Rightarrow> nd)"

definition nx_add_edge :: "string \<Rightarrow> string \<Rightarrow> string \<Rightarrow> pyfloat \<Rightarrow> GraphEngine \<Rightarrow> GraphEngine" where
  "nx_add_edge u v t w s =
     s\<lparr>graph_node := ensure_node v (ensure_node u (graph_node s)),
       graph_adj := AList.update (u, v) (t, w) (graph_adj s)\<rparr>"

datatype nx_error = NetworkXError | NodeNotFound

definition succ_keys :: "GraphEngine \<Rightarrow> string \<Rightarrow> string list" where
  "succ_keys s n = map (snd \<circ> fst) (filter (\<lambda>e. fst (fst e) = n) (graph_adj s))"

definition pred_keys :: "GraphEngine \<Rightarrow> string \<Rightarrow> string list" where
  "pred_keys s n = map (fst \<circ> fst) (filter (\<lambda>e. snd (fst e) = n) (graph_adj s))"

text \<open>\<^verbatim>\<open>successors\<close> and \<^verbatim>\<open>predecessors\<close> raise for an id that is not a node.\<close>

definition nx_successors :: "GraphEngine \<Rightarrow> string \<Rightarrow> nx_error + string list" where
  "nx_successors s n = (if graph_node s n = None then Inl NetworkXError else Inr (succ_keys s n))"

definition nx_predecessors :: "GraphEngine \<Rightarrow> string \<Rightarrow> nx_error + string list" where
  "nx_predecessors s n = (if graph_node s n = None then Inl NetworkXError else Inr (pred_keys s n))"

text \<open>
  \<^verbatim>\<open>to_undirected()\<close>: in the undirected copy the neighbours of \<open>v\<close> are the nodes joined
  to \<open>v\<close> by an edge in either direction (a self-loop makes \<open>v\<close> its own neighbour).
  The list enumerates them without repetition; the position of a neighbour in the
  library's adjacency dictionary is not modelled, and nothing below depends on it.
\<close>

definition undirected_adj :: "GraphEngine \<Rightarrow> string \<Rightarrow> string list" where
  "undirected_adj s v = remdups (succ_keys s v @ pred_keys s v)"

text \<open>
  \<^verbatim>\<open>single_source_shortest_path_length(G, source, cutoff)\<close> yields the source and then,
  level by level while \<^verbatim>\<open>nextlevel and cutoff > level\<close>, every node not seen before:
  \<^verbatim>\<open>
    for v in thislevel:
        for w in adj[v]:
            if w not in seen:
                seen.add(w); nextlevel.append(w); yield (w, level)
  \<close>
  \<open>seen\<close> is kept as the list of yielded nodes, which is the key order of the returned
  dictionary; the caller reads the keys only.  The remaining number of levels
  \<open>cutoff - level\<close> is the recursion argument.  (The library also leaves the loop as soon
  as every node of the graph has been seen; no unseen node is left to yield then.)
\<close>

definition visit_node ::
  "(string \<Rightarrow> string list) \<Rightarrow> string list \<times> string list \<Rightarrow> string \<Rightarrow> string list \<times> string list" where
  "visit_node adj acc v =
     foldl (\<lambda>(seen, nextlevel) w.
              if w \<in> set seen then (seen, nextlevel) else (seen @ [w], nextlevel @ [w]))
       acc (adj v)"

definition visit_level ::
  "(string \<Rightarrow> string list) \<Rightarrow> string list \<Rightarrow> string list \<Rightarrow> string list \<times> string list" where
  "visit_level adj seen thislevel = foldl (visit_node adj) (seen, []) thislevel"

fun bfs_loop :: "(string \<Rightarrow> string list) \<Rightarrow> nat \<Rightarrow> string list \<Rightarrow> string list \<Rightarrow> string list" where
  "bfs_loop adj 0 seen nextlevel = seen"
| "bfs_loop adj (Suc k) seen nextlevel =
     (if nextlevel = [] then seen
      else (case visit_level adj seen nextlevel of
              (seen', nextlevel') \<Rightarrow> bfs_loop adj k seen' nextlevel'))"

definition nx_single_source_shortest_path_length ::
  "(string \<rightharpoonup> attrs) \<Rightarrow> (string \<Rightarrow> string list) \<Rightarrow> string \<Rightarrow> int \<Rightarrow> nx_error + string list" where
  "nx_single_source_shortest_path_length nodes adj source cutoff =
     (if nodes source = None then Inl NodeNotFound
      else Inr (bfs_loop adj (nat cutoff) [source] [source]))"

subsection \<open>Iteration order of a Python set\<close>

text \<open>
  \<^verbatim>\<open>list(set(xs))\<close> and a loop over a set enumerate the distinct elements in an order
  that Python does not fix (for strings it changes from one process to the next).  The
  order is a parameter \<open>ord\<close> of the model; \<open>set_iteration ord\<close> says that it only
  rearranges.
\<close>

type_synonym set_order = "string list \<Rightarrow> string list"

definition set_iteration :: "set_order \<Rightarrow> bool" where
  "set_iteration ord \<longleftrightarrow> (\<forall>xs. mset (ord xs) = mset xs)"

definition py_list_set :: "set_order \<Rightarrow> string list \<Rightarrow> string list" where
  "py_list_set ord xs = ord (remdups xs)"

definition insertion_order :: set_order where
  "insertion_order xs = xs"

subsection \<open>add_nodes and add_edges\<close>

text \<open>
  \<^verbatim>\<open>cursor.execute("INSERT OR REPLACE ...")\<close> replaces the row with the same primary key.
  The statement (or \<^verbatim>\<open>json.dumps\<close> before it) may raise; which records it raises for is
  the parameter \<open>fails\<close>.  \<^verbatim>\<open>conn.commit()\<close> makes the pending writes durable.
  SQLite stores a NaN that is bound to a REAL column as NULL.
\<close>

datatype db_error = DurableWriteError

definition sql_replace_node :: "string \<Rightarrow> attrs \<Rightarrow> GraphEngine \<Rightarrow> GraphEngine" where
  "sql_replace_node n m s = s\<lparr>conn_nodes := (conn_nodes s)(n \<mapsto> m)\<rparr>"

definition sqlite_real :: "pyfloat \<Rightarrow> pyfloat option" where
  "sqlite_real w = (if w = NaN then None else Some w)"

definition sql_replace_edge :: "string \<Rightarrow> string \<Rightarrow> string \<Rightarrow> pyfloat \<Rightarrow> GraphEngine \<Rightarrow> GraphEngine" where
  "sql_replace_edge u v t w s = s\<lparr>conn_edges := (conn_edges s)((u, v, t) \<mapsto> sqlite_real w)\<rparr>"

definition commit :: "GraphEngine \<Rightarrow> GraphEngine" where
  "commit s = s\<lparr>disk_nodes := conn_nodes s, disk_edges := conn_edges s\<rparr>"

text \<open>
  The loop of \<^verbatim>\<open>add_nodes\<close>: for each node, first the in-memory graph is updated, then
  the row is written.  An exception leaves the loop with the engine as it is at that
  point; the result pairs the exception (if any) with the engine.
\<close>

fun add_nodes_loop ::
  "(NodeCreate \<Rightarrow> bool) \<Rightarrow> NodeCreate list \<Rightarrow> GraphEngine \<Rightarrow> db_error option \<times> GraphEngine" where
  "add_nodes_loop fails [] s = (None, s)"
| "add_nodes_loop fails (node # rest) s =
     (let s1 = nx_add_node (nc_id node) (nc_metadata node) s in
      if fails node then (Some DurableWriteError, s1)
      else add_nodes_loop fails rest (sql_replace_node (nc_id node) (nc_metadata node) s1))"

definition add_nodes ::
  "(NodeCreate \<Rightarrow> bool) \<Rightarrow> NodeCreate list \<Rightarrow> GraphEngine \<Rightarrow> db_error option \<times> GraphEngine" where
  "add_nodes fails nodes s =
     (if nodes = [] then (None, s)
      else (case add_nodes_loop fails nodes s of
              (Some e, s') \<Rightarrow> (Some e, s')
            | (None, s') \<Rightarrow> (None, commit s')))"

fun add_edges_loop ::
  "(EdgeCreate \<Rightarrow> bool) \<Rightarrow> EdgeCreate list \<Rightarrow> GraphEngine \<Rightarrow> db_error option \<times> GraphEngine" where
  "add_edges_loop fails [] s = (None, s)"
| "add_edges_loop fails (edge # rest) s =
     (let s1 = nx_add_edge (ec_source edge) (ec_target edge) (ec_type edge) (ec_weight edge) s in
      if fails edge then (Some DurableWriteError, s1)
      else add_edges_loop fails rest
             (sql_replace_edge (ec_source edge) (ec_target edge) (ec_type edge) (ec_weight edge) s1))"

definition add_edges ::
  "(EdgeCreate \<Rightarrow> bool) \<Rightarrow> EdgeCreate list \<Rightarrow> GraphEngine \<Rightarrow> db_error option \<times> GraphEngine" where
  "add_edges fails edges s =
     (if edges = [] then (None, s)
      else (case add_edges_loop fails edges s of
              (Some e, s') \<Rightarrow> (Some e, s')
            | (None, s') \<Rightarrow> (None, commit s')))"

definition never_fails :: "'a \<Rightarrow> bool" where
  "never_fails r = False"

definition always_fails :: "'a \<Rightarrow> bool" where
  "always_fails r = True"

subsection \<open>get_neighbors\<close>

definition get_neighbors :: "set_order \<Rightarrow> GraphEngine \<Rightarrow> string \<Rightarrow> int \<Rightarrow> nx_error + string list" where
  "get_neighbors ord s node_id depth =
     (if graph_node s node_id = None then Inr []
      else if depth = 1 then
        (case nx_successors s node_id of
           Inl e \<Rightarrow> Inl e
         | Inr outgoing \<Rightarrow>
             (case nx_predecessors s node_id of
                Inl e \<Rightarrow> Inl e
              | Inr incoming \<Rightarrow> Inr (py_list_set ord (outgoing @ incoming))))
      else
        (case nx_single_source_shortest_path_length (graph_node s) (undirected_adj s) node_id depth of
           Inl e \<Rightarrow> Inl e
         | Inr paths \<Rightarrow> Inr (filter (\<lambda>n. n \<noteq> node_id) paths)))"

section \<open>Hybrid search (app/hybrid_logic.py)\<close>

text \<open>
  A result of the vector search carries \<^verbatim>\<open>id\<close> and \<^verbatim>\<open>score\<close> (its text and metadata
  are not read by the fusion).  The search itself is a parameter: a function from the
  query and the limit to the ranked list.
\<close>

record anchor =
  a_id :: string
  a_score :: real

text \<open>
  The \<^verbatim>\<open>reason\<close> of a candidate lists the non-zero parts; its rendering as a string
  (two decimals, joined by " + ") is not modelled.
\<close>

datatype reason_part = Vector real | GraphNeighbor real

record candidate =
  c_id :: string
  c_score :: real
  c_reason :: "reason_part list"

text \<open>
  Scores are Python floats.  A finite float is the real number it denotes, and floats
  compare as these numbers do; but the product and the sum of two floats are rounded.
  The two operations are therefore parameters of the model; \<open>exact\<close> is the arithmetic
  of the real numbers.  (NaN and the infinities do not occur among the scores.)
\<close>

record float_ops =
  fmul :: "real \<Rightarrow> real \<Rightarrow> real"
  fadd :: "real \<Rightarrow> real \<Rightarrow> real"

definition exact :: float_ops where
  "exact = \<lparr>fmul = (\<lambda>x y. x * y), fadd = (\<lambda>x y. x + y)\<rparr>"

text \<open>Step 1: \<^verbatim>\<open>scores[res['id']] = res['score'] * vector_weight\<close>, a dictionary in insertion order.\<close>

definition vector_scores :: "float_ops \<Rightarrow> real \<Rightarrow> anchor list \<Rightarrow> (string \<times> real) list" where
  "vector_scores fp vector_weight vector_results =
     foldl (\<lambda>scores res. AList.update (a_id res) (fmul fp (a_score res) vector_weight) scores)
       [] vector_results"

text \<open>Step 2: every neighbour of an anchor accumulates \<^verbatim>\<open>0.3 * v_res['score']\<close>.\<close>

definition add_boost ::
  "float_ops \<Rightarrow> real \<Rightarrow> (string \<times> real) list \<Rightarrow> string \<Rightarrow> (string \<times> real) list" where
  "add_boost fp boost graph_boosts neighbor =
     (case map_of graph_boosts neighbor of
        Some b \<Rightarrow> AList.update neighbor (fadd fp b boost) graph_boosts
      | None \<Rightarrow> AList.update neighbor boost graph_boosts)"

fun expand_anchors ::
  "float_ops \<Rightarrow> set_order \<Rightarrow> GraphEngine \<Rightarrow> anchor list \<Rightarrow> (string \<times> real) list \<Rightarrow>
   nx_error + (string \<times> real) list" where
  "expand_anchors fp ord g [] graph_boosts = Inr graph_boosts"
| "expand_anchors fp ord g (v_res # rest) graph_boosts =
     (case get_neighbors ord g (a_id v_res) 1 of
        Inl e \<Rightarrow> Inl e
      | Inr neighbors \<Rightarrow>
          expand_anchors fp ord g rest
            (foldl (add_boost fp (fmul fp (3 / 10) (a_score v_res))) graph_boosts neighbors))"

text \<open>Step 3: the final score of one candidate id.\<close>

definition final_candidate ::
  "float_ops \<Rightarrow> (string \<times> real) list \<Rightarrow> (string \<times> real) list \<Rightarrow> real \<Rightarrow> string \<Rightarrow> candidate" where
  "final_candidate fp scores graph_boosts graph_weight nid =
     (let v_score = (case map_of scores nid of Some v \<Rightarrow> v | None \<Rightarrow> 0);
          g_raw = (case map_of graph_boosts nid of Some b \<Rightarrow> b | None \<Rightarrow> 0);
          g_score = fmul fp (min g_raw 1) graph_weight;
          final_score = fadd fp v_score g_score
      in \<lparr>c_id = nid, c_score = final_score,
          c_reason = (if v_score > 0 then [Vector v_score] else []) @
                     (if g_score > 0 then [GraphNeighbor g_score] else [])\<rparr>)"

text \<open>
  \<^verbatim>\<open>all_ids = set(scores.keys()) | set(graph_boosts.keys())\<close> is a set; the candidates
  are built in its iteration order.
\<close>

definition final_candidates ::
  "float_ops \<Rightarrow> set_order \<Rightarrow> (string \<times> real) list \<Rightarrow> (string \<times> real) list \<Rightarrow> real \<Rightarrow>
   candidate list" where
  "final_candidates fp ord scores graph_boosts graph_weight =
     map (final_candidate fp scores graph_boosts graph_weight)
       (py_list_set ord (map fst scores @ map fst graph_boosts))"

text \<open>
  Step 4: \<^verbatim>\<open>sorted(..., key=score, reverse=True)\<close> is a stable sort by descending score:
  candidates with equal scores keep the order they had.  \<^verbatim>\<open>xs[:k]\<close> keeps the first
  \<open>k\<close> elements, and for a negative \<open>k\<close> drops the last \<open>-k\<close>.
\<close>

definition sorted_results :: "candidate list \<Rightarrow> candidate list" where
  "sorted_results cands = sort_key (\<lambda>c. - c_score c) cands"

definition py_slice_to :: "'a list \<Rightarrow> int \<Rightarrow> 'a list" where
  "py_slice_to xs k = (if 0 \<le> k then take (nat k) xs else take (length xs - nat (- k)) xs)"

definition hybrid_search_fp ::
  "float_ops \<Rightarrow> set_order \<Rightarrow> (string \<Rightarrow> int \<Rightarrow> anchor list) \<Rightarrow> GraphEngine \<Rightarrow>
   string \<Rightarrow> real \<Rightarrow> real \<Rightarrow> int \<Rightarrow> nx_error + candidate list" where
  "hybrid_search_fp fp ord search g query vector_weight graph_weight top_k =
     (let vector_results = search query (top_k * 2);
          scores = vector_scores fp vector_weight vector_results
      in case expand_anchors fp ord g vector_results [] of
           Inl e \<Rightarrow> Inl e
         | Inr graph_boosts \<Rightarrow>
             Inr (py_slice_to
                    (sorted_results (final_candidates fp ord scores graph_boosts graph_weight))
                    top_k))"

text \<open>hybrid_search over the real numbers, where no product and no sum is rounded.\<close>

definition hybrid_search ::
  "set_order \<Rightarrow> (string \<Rightarrow> int \<Rightarrow> anchor list) \<Rightarrow> GraphEngine \<Rightarrow>
   string \<Rightarrow> real \<Rightarrow> real \<Rightarrow> int \<Rightarrow> nx_error + candidate list" where
  "hybrid_search ord search g query vector_weight graph_weight top_k =
     hybrid_search_fp exact ord search g query vector_weight graph_weight top_k"

text \<open>
  What rounding leaves alone: on finite floats multiplying by 1 and adding 0 give the
  number itself, and multiplying by 0 gives 0.
\<close>

definition neutral_ops :: "float_ops \<Rightarrow> bool" where
  "neutral_ops fp \<longleftrightarrow>
     (\<forall>x. fmul fp x 1 = x) \<and> (\<forall>x. fmul fp x 0 = 0) \<and> (\<forall>x. fadd fp x 0 = x)"

text \<open>The id and score of each returned candidate.\<close>

definition ranking :: "nx_error + candidate list \<Rightarrow> (string \<times> real) list" where
  "ranking r = (case r of Inl e \<Rightarrow> [] | Inr cs \<Rightarrow> map (\<lambda>c. (c_id c, c_score c)) cs)"

section \<open>Example inputs\<close>

definition edge_A_B :: EdgeCreate where
  "edge_A_B = \<lparr>ec_source = ''A'', ec_target = ''B'', ec_type = ''creates'', ec_weight = Num 1\<rparr>"

definition edge_A_A :: EdgeCreate where
  "edge_A_A = \<lparr>ec_source = ''A'', ec_target = ''A'', ec_type = ''mentions'', ec_weight = Num 1\<rparr>"

definition edge_A_B_likes :: EdgeCreate where
  "edge_A_B_likes = \<lparr>ec_source = ''A'', ec_target = ''B'', ec_type = ''likes'', ec_weight = NaN\<rparr>"

definition edge_B_C :: EdgeCreate where
  "edge_B_C = \<lparr>ec_source = ''B'', ec_target = ''C'', ec_type = ''uses'', ec_weight = Num 1\<rparr>"

text \<open>The graph that holds only the edge A to B, and the graph that holds only a self-loop on A.\<close>

definition graph_A_B :: GraphEngine where
  "graph_A_B = snd (add_edges never_fails [edge_A_B] empty_engine)"

definition graph_A_A :: GraphEngine where
  "graph_A_A = snd (add_edges never_fails [edge_A_A] empty_engine)"

text \<open>
  Two edges from A to B of different types, the second with weight NaN; and the chain
  A to B to C.
\<close>

definition graph_two_types :: GraphEngine where
  "graph_two_types = snd (add_edges never_fails [edge_A_B, edge_A_B_likes] empty_engine)"

definition graph_A_B_C :: GraphEngine where
  "graph_A_B_C = snd (add_edges never_fails [edge_A_B, edge_B_C] empty_engine)"

definition node_n_a :: NodeCreate where
  "node_n_a = \<lparr>nc_id = ''n'', nc_text = ''first'', nc_metadata = [''a'' \<mapsto> PInt 1]\<rparr>"

definition node_n_b :: NodeCreate where
  "node_n_b = \<lparr>nc_id = ''n'', nc_text = ''second'', nc_metadata = [''b'' \<mapsto> PInt 2]\<rparr>"

definition node_A :: NodeCreate where
  "node_A = \<lparr>nc_id = ''A'', nc_text = ''entity A'', nc_metadata = [''label'' \<mapsto> PStr ''CONCEPT'']\<rparr>"

text \<open>The same node id upserted twice, with different metadata.\<close>

definition upserted_twice :: GraphEngine where
  "upserted_twice =
     snd (add_nodes never_fails [node_n_b] (snd (add_nodes never_fails [node_n_a] empty_engine)))"

text \<open>
  Results of the vector search: the worked example (A with 0.9, B with 0.4), two anchors
  with equal scores, and a single anchor.
\<close>

definition search_A_B :: "string \<Rightarrow> int \<Rightarrow> anchor list" where
  "search_A_B query limit = [\<lparr>a_id = ''A'', a_score = 9 / 10\<rparr>, \<lparr>a_id = ''B'', a_score = 4 / 10\<rparr>]"

definition search_tie :: "string \<Rightarrow> int \<Rightarrow> anchor list" where
  "search_tie query limit = [\<lparr>a_id = ''B'', a_score = 1 / 2\<rparr>, \<lparr>a_id = ''A'', a_score = 1 / 2\<rparr>]"

definition search_A :: "string \<Rightarrow> int \<Rightarrow> anchor list" where
  "search_A query limit = [\<lparr>a_id = ''A'', a_score = 9 / 10\<rparr>]"

text \<open>Python compares strings code point by code point.\<close>

definition lex_less :: "string \<Rightarrow> string \<Rightarrow> bool" where
  "lex_less a b \<longleftrightarrow> (a, b) \<in> lexord {(c, d). (of_char c :: nat) < of_char d}"

text \<open>Write failures that depend on the record: the second version of the node, a self-loop.\<close>

definition rejects_second :: "NodeCreate \<Rightarrow> bool" where
  "rejects_second node = (nc_text node = ''second'')"

definition rejects_self_loop :: "EdgeCreate \<Rightarrow> bool" where
  "rejects_self_loop edge = (ec_source edge = ec_target edge)"

section \<open>The two copies of the graph\<close>

text \<open>
  The equivalence of the two copies in the words of the specification: the same node ids
  with the same metadata, and the same (source, target, type) edges with the same
  weights.
\<close>

definition same_contents :: "GraphEngine \<Rightarrow> bool" where
  "same_contents s \<longleftrightarrow>
     graph_node s = disk_nodes s \<and>
     (\<forall>u v t w. ((u, v), (t, w)) \<in> set (graph_adj s) \<longleftrightarrow> disk_edges s (u, v, t) = Some (Some w))"

text \<open>
  What the code maintains between the in-memory graph and the tables seen through the
  connection:
  \<^item> the in-memory node ids are the ids of the nodes table together with the endpoints
    of the rows of the edges table;
  \<^item> a node with a row in the nodes table has exactly the stored metadata as its
    in-memory attributes;
  \<^item> an in-memory edge with type \<open>t\<close> and weight \<open>w\<close> has the row with that type, whose
    weight is \<open>w\<close> as SQLite stores it;
  \<^item> the pair of every row of the edges table is an in-memory edge.
\<close>

definition mirrors :: "GraphEngine \<Rightarrow> bool" where
  "mirrors s \<longleftrightarrow>
     (\<forall>n. graph_node s n \<noteq> None \<longleftrightarrow>
            (conn_nodes s n \<noteq> None \<or>
             (\<exists>m t. conn_edges s (n, m, t) \<noteq> None \<or> conn_edges s (m, n, t) \<noteq> None))) \<and>
     (\<forall>n m. conn_nodes s n = Some m \<longrightarrow> graph_node s n = Some m) \<and>
     (\<forall>u v t w. map_of (graph_adj s) (u, v) = Some (t, w) \<longrightarrow>
                conn_edges s (u, v, t) = Some (sqlite_real w)) \<and>
     (\<forall>u v t. conn_edges s (u, v, t) \<noteq> None \<longrightarrow> map_of (graph_adj s) (u, v) \<noteq> None)"

text \<open>Write-through: nothing is pending, and the graph mirrors the tables.\<close>

definition write_through :: "GraphEngine \<Rightarrow> bool" where
  "write_through s \<longleftrightarrow>
     disk_nodes s = conn_nodes s \<and> disk_edges s = conn_edges s \<and> mirrors s"

text \<open>
  A batch of nodes that add_nodes replaces rather than merges: no id occurs twice, and
  the metadata of each node mentions every key that the in-memory node with that id
  already carries (none for a new id or for an id known only as an endpoint of an edge).
\<close>

definition replaces :: "GraphEngine \<Rightarrow> NodeCreate list \<Rightarrow> bool" where
  "replaces s nodes \<longleftrightarrow>
     distinct (map nc_id nodes) \<and>
     (\<forall>node\<in>set nodes. \<forall>a. graph_node s (nc_id node) = Some a \<longrightarrow>
                               dom a \<subseteq> dom (nc_metadata node))"

section \<open>The branches of get_neighbors\<close>

lemma get_neighbors_absent:
  "graph_node s n = None \<Longrightarrow> get_neighbors ord s n depth = Inr []"
  by (simp add: get_neighbors_def)

lemma get_neighbors_one:
  "graph_node s n \<noteq> None \<Longrightarrow>
   get_neighbors ord s n 1 = Inr (py_list_set ord (succ_keys s n @ pred_keys s n))"
  by (auto simp: get_neighbors_def nx_successors_def nx_predecessors_def)

lemma get_neighbors_deep:
  "graph_node s n \<noteq> None \<Longrightarrow> depth \<noteq> 1 \<Longrightarrow>
   get_neighbors ord s n depth =
     Inr (filter (\<lambda>m. m \<noteq> n) (bfs_loop (undirected_adj s) (nat depth) [n] [n]))"
  by (auto simp: get_neighbors_def nx_single_source_shortest_path_length_def)

text \<open>
  C10.  For every engine state, every node id (present or absent) and every depth at most
  0, get_neighbors returns the empty list and raises nothing: the depth-1 branch is not
  taken, and the breadth-first search with that cutoff yields the start node only, which
  is filtered out.
\<close>

theorem get_neighbors_nonpositive_depth:
  "depth \<le> 0 \<Longrightarrow> get_neighbors ord s node_id depth = Inr []"
proof (cases "graph_node s node_id = None")
  case True
  then show ?thesis by (rule get_neighbors_absent)
next
  case False
  assume "depth \<le> 0"
  then have "depth \<noteq> 1" and "nat depth = 0" by simp_all
  with False show ?thesis by (simp add: get_neighbors_deep)
qed

theorem get_neighbors_nonpositive_depth_witness:
  "(0::int) \<le> 0 \<and> (-3::int) \<le> 0 \<and>
   get_neighbors insertion_order graph_A_B ''A'' 0 = Inr [] \<and>
   get_neighbors insertion_order graph_A_B ''A'' (-3) = Inr [] \<and>
   get_neighbors insertion_order graph_A_B ''Z'' 0 = Inr [] \<and>
   graph_node graph_A_B ''A'' \<noteq> None \<and> graph_node graph_A_B ''Z'' = None"
  using get_neighbors_nonpositive_depth [of 0 insertion_order graph_A_B "''A''"]
    get_neighbors_nonpositive_depth [of "-3" insertion_order graph_A_B "''A''"]
    get_neighbors_nonpositive_depth [of 0 insertion_order graph_A_B "''Z''"]
  by (simp add: graph_A_B_def add_edges_def never_fails_def edge_A_B_def empty_engine_def
      nx_add_edge_def sql_replace_edge_def commit_def ensure_node_def)

section \<open>Facts about the example graphs and the graph primitives\<close>

lemma graph_A_B_simps:
  "graph_adj graph_A_B = [((''A'', ''B''), (''creates'', Num 1))]"
  "graph_node graph_A_B = [''A'' \<mapsto> Map.empty, ''B'' \<mapsto> Map.empty]"
  "disk_nodes graph_A_B = Map.empty"
  "conn_nodes graph_A_B = Map.empty"
  by (simp_all add: graph_A_B_def add_edges_def never_fails_def edge_A_B_def empty_engine_def
      nx_add_edge_def sql_replace_edge_def commit_def ensure_node_def)

lemma graph_A_A_simps:
  "graph_adj graph_A_A = [((''A'', ''A''), (''mentions'', Num 1))]"
  "graph_node graph_A_A = [''A'' \<mapsto> Map.empty]"
  by (simp_all add: graph_A_A_def add_edges_def never_fails_def edge_A_A_def empty_engine_def
      nx_add_edge_def sql_replace_edge_def commit_def ensure_node_def)

lemma bfs_A_A: "bfs_loop (undirected_adj graph_A_A) 2 [''A''] [''A''] = [''A'']"
  by (simp add: numeral_2_eq_2 undirected_adj_def succ_keys_def pred_keys_def graph_A_A_simps
      visit_level_def visit_node_def)

lemma set_py_list_set: "set_iteration ord \<Longrightarrow> set (py_list_set ord xs) = set xs"
  unfolding set_iteration_def py_list_set_def
  by (metis mset_eq_setD set_remdups)

lemma distinct_py_list_set: "set_iteration ord \<Longrightarrow> distinct (py_list_set ord xs)"
  unfolding set_iteration_def py_list_set_def
  by (metis distinct_remdups mset_eq_imp_distinct_iff)

lemma set_succ_keys: "set (succ_keys s n) = {v. (n, v) \<in> fst ` set (graph_adj s)}"
  by (force simp: succ_keys_def)

lemma set_pred_keys: "set (pred_keys s n) = {u. (u, n) \<in> fst ` set (graph_adj s)}"
  by (force simp: pred_keys_def)

lemma ensure_node_keeps: "nd n \<noteq> None \<Longrightarrow> ensure_node m nd n \<noteq> None"
  by (simp add: ensure_node_def split: option.splits)

lemma ensure_node_self: "ensure_node n nd n \<noteq> None"
  by (simp add: ensure_node_def split: option.splits)

lemma nx_add_edge_nodes:
  "graph_node (nx_add_edge u v t w s) u \<noteq> None"
  "graph_node (nx_add_edge u v t w s) v \<noteq> None"
  "graph_node s n \<noteq> None \<Longrightarrow> graph_node (nx_add_edge u v t w s) n \<noteq> None"
  by (simp_all add: nx_add_edge_def ensure_node_keeps ensure_node_self)

lemma nx_add_edge_keys:
  "fst ` set (graph_adj (nx_add_edge u v t w s)) = insert (u, v) (fst ` set (graph_adj s))"
  by (simp add: nx_add_edge_def AList.dom_update)

lemma sql_replace_edge_graph [simp]:
  "graph_node (sql_replace_edge u v t w s) = graph_node s"
  "graph_adj (sql_replace_edge u v t w s) = graph_adj s"
  by (simp_all add: sql_replace_edge_def)

lemma commit_graph [simp]:
  "graph_node (commit s) = graph_node s"
  "graph_adj (commit s) = graph_adj s"
  by (simp_all add: commit_def)



lemma add_edges_loop_Cons:
  "add_edges_loop fails (e # es) s =
     (if fails e
      then (Some DurableWriteError, nx_add_edge (ec_source e) (ec_target e) (ec_type e) (ec_weight e) s)
      else add_edges_loop fails es
             (sql_replace_edge (ec_source e) (ec_target e) (ec_type e) (ec_weight e)
                (nx_add_edge (ec_source e) (ec_target e) (ec_type e) (ec_weight e) s)))"
  by (simp add: Let_def)

lemma add_edges_loop_keys:
  "add_edges_loop fails es s = (r, s') \<Longrightarrow> k \<in> fst ` set (graph_adj s) \<Longrightarrow>
   k \<in> fst ` set (graph_adj s')"
proof (induction es arbitrary: s)
  case Nil
  then show ?case by simp
next
  case (Cons e es)
  let ?s1 = "nx_add_edge (ec_source e) (ec_target e) (ec_type e) (ec_weight e) s"
  let ?s2 = "sql_replace_edge (ec_source e) (ec_target e) (ec_type e) (ec_weight e) ?s1"
  have k1: "k \<in> fst ` set (graph_adj ?s1)"
    using Cons.prems(2) by (simp only: nx_add_edge_keys insert_iff) simp
  show ?case
  proof (cases "fails e")
    case True
    with Cons.prems(1) have "s' = ?s1" by (simp only: add_edges_loop_Cons if_True prod.inject)
    with k1 show ?thesis by simp
  next
    case False
    with Cons.prems(1) have "add_edges_loop fails es ?s2 = (r, s')"
      by (simp only: add_edges_loop_Cons if_False)
    moreover from k1 have "k \<in> fst ` set (graph_adj ?s2)"
      by (simp only: sql_replace_edge_graph)
    ultimately show ?thesis by (rule Cons.IH)
  qed
qed


lemma add_edges_loop_nodes:
  "add_edges_loop fails es s = (r, s') \<Longrightarrow> graph_node s n \<noteq> None \<Longrightarrow>
   graph_node s' n \<noteq> None"
proof (induction es arbitrary: s)
  case Nil
  then show ?case by simp
next
  case (Cons e es)
  let ?s1 = "nx_add_edge (ec_source e) (ec_target e) (ec_type e) (ec_weight e) s"
  let ?s2 = "sql_replace_edge (ec_source e) (ec_target e) (ec_type e) (ec_weight e) ?s1"
  have n1: "graph_node ?s1 n \<noteq> None"
    using Cons.prems(2) by (rule nx_add_edge_nodes(3))
  show ?case
  proof (cases "fails e")
    case True
    with Cons.prems(1) have "s' = ?s1" by (simp only: add_edges_loop_Cons if_True prod.inject)
    with n1 show ?thesis by simp
  next
    case False
    with Cons.prems(1) have "add_edges_loop fails es ?s2 = (r, s')"
      by (simp only: add_edges_loop_Cons if_False)
    moreover from n1 have "graph_node ?s2 n \<noteq> None"
      by simp
    ultimately show ?thesis by (rule Cons.IH)
  qed
qed

lemma add_edges_loop_stores:
  "add_edges_loop fails es s = (None, s') \<Longrightarrow> e \<in> set es \<Longrightarrow>
   (ec_source e, ec_target e) \<in> fst ` set (graph_adj s') \<and>
   graph_node s' (ec_source e) \<noteq> None \<and> graph_node s' (ec_target e) \<noteq> None"
proof (induction es arbitrary: s)
  case Nil
  then show ?case by simp
next
  case (Cons x es)
  let ?s1 = "nx_add_edge (ec_source x) (ec_target x) (ec_type x) (ec_weight x) s"
  let ?s2 = "sql_replace_edge (ec_source x) (ec_target x) (ec_type x) (ec_weight x) ?s1"
  have ok: "\<not> fails x"
  proof
    assume "fails x"
    with Cons.prems(1) show False by (simp only: add_edges_loop_Cons if_True) simp
  qed
  with Cons.prems(1) have rest: "add_edges_loop fails es ?s2 = (None, s')"
    by (simp only: add_edges_loop_Cons if_False)
  show ?case
  proof (cases "e = x")
    case True
    have "(ec_source x, ec_target x) \<in> fst ` set (graph_adj ?s2)"
      by (simp add: nx_add_edge_keys)
    moreover have "graph_node ?s2 (ec_source x) \<noteq> None" "graph_node ?s2 (ec_target x) \<noteq> None"
      by (simp_all add: nx_add_edge_nodes)
    ultimately show ?thesis
      unfolding True
      using add_edges_loop_keys [OF rest] add_edges_loop_nodes [OF rest] by blast
  next
    case False
    with Cons.prems(2) have "e \<in> set es" by simp
    with rest show ?thesis by (rule Cons.IH)
  qed
qed

lemma add_edges_success:
  assumes "add_edges fails es s = (None, s')" and "es \<noteq> []"
  shows "\<exists>t. add_edges_loop fails es s = (None, t) \<and> s' = commit t"
proof (cases "add_edges_loop fails es s")
  case (Pair r t)
  show ?thesis
  proof (cases r)
    case None
    with Pair assms show ?thesis by (simp add: add_edges_def)
  next
    case (Some e)
    with Pair assms show ?thesis by (simp add: add_edges_def)
  qed
qed

lemma add_edges_loop_row_kept:
  "add_edges_loop fails es s = (r, s') \<Longrightarrow> conn_edges s k \<noteq> None \<Longrightarrow> conn_edges s' k \<noteq> None"
proof (induction es arbitrary: s)
  case Nil
  then show ?case by simp
next
  case (Cons e es)
  let ?s1 = "nx_add_edge (ec_source e) (ec_target e) (ec_type e) (ec_weight e) s"
  let ?s2 = "sql_replace_edge (ec_source e) (ec_target e) (ec_type e) (ec_weight e) ?s1"
  show ?case
  proof (cases "fails e")
    case True
    with Cons.prems(1) have "s' = ?s1" by (simp only: add_edges_loop_Cons if_True prod.inject)
    with Cons.prems(2) show ?thesis by (simp add: nx_add_edge_def)
  next
    case False
    with Cons.prems(1) have "add_edges_loop fails es ?s2 = (r, s')"
      by (simp only: add_edges_loop_Cons if_False)
    moreover from Cons.prems(2) have "conn_edges ?s2 k \<noteq> None"
      by (simp add: sql_replace_edge_def nx_add_edge_def)
    ultimately show ?thesis by (rule Cons.IH)
  qed
qed

lemma add_edges_loop_row_written:
  "add_edges_loop fails es s = (None, s') \<Longrightarrow> e \<in> set es \<Longrightarrow>
   conn_edges s' (ec_source e, ec_target e, ec_type e) \<noteq> None"
proof (induction es arbitrary: s)
  case Nil
  then show ?case by simp
next
  case (Cons x es)
  let ?s1 = "nx_add_edge (ec_source x) (ec_target x) (ec_type x) (ec_weight x) s"
  let ?s2 = "sql_replace_edge (ec_source x) (ec_target x) (ec_type x) (ec_weight x) ?s1"
  have ok: "\<not> fails x"
  proof
    assume "fails x"
    with Cons.prems(1) show False by (simp only: add_edges_loop_Cons if_True) simp
  qed
  with Cons.prems(1) have rest: "add_edges_loop fails es ?s2 = (None, s')"
    by (simp only: add_edges_loop_Cons if_False)
  show ?case
  proof (cases "e = x")
    case True
    have "conn_edges ?s2 (ec_source x, ec_target x, ec_type x) \<noteq> None"
      by (simp add: sql_replace_edge_def)
    with rest show ?thesis unfolding True by (rule add_edges_loop_row_kept)
  next
    case False
    with Cons.prems(2) have "e \<in> set es" by simp
    with rest show ?thesis by (rule Cons.IH)
  qed
qed

lemma add_edges_row_written:
  assumes "add_edges fails es s = (None, s')" and "e \<in> set es"
  shows "disk_edges s' (ec_source e, ec_target e, ec_type e) \<noteq> None"
proof -
  from assms(2) have "es \<noteq> []" by auto
  from add_edges_success [OF assms(1) this]
  obtain t where loop: "add_edges_loop fails es s = (None, t)" and s': "s' = commit t"
    by blast
  from add_edges_loop_row_written [OF loop assms(2)] show ?thesis
    unfolding s' by (simp add: commit_def)
qed

lemma add_edges_stores:
  assumes "add_edges fails es s = (None, s')" and "e \<in> set es"
  shows "(ec_source e, ec_target e) \<in> fst ` set (graph_adj s') \<and>
   graph_node s' (ec_source e) \<noteq> None \<and> graph_node s' (ec_target e) \<noteq> None"
proof -
  from assms(2) have "es \<noteq> []" by auto
  from add_edges_success [OF assms(1) this]
  obtain t where loop: "add_edges_loop fails es s = (None, t)" and s': "s' = commit t"
    by blast
  from add_edges_loop_stores [OF loop assms(2)] show ?thesis
    unfolding s' by simp
qed

lemma set_iteration_insertion_order: "set_iteration insertion_order"
  by (simp add: set_iteration_def insertion_order_def)

lemma add_edges_example:
  "add_edges never_fails [edge_A_B] empty_engine = (None, graph_A_B)"
  by (simp add: graph_A_B_def add_edges_def never_fails_def)

section \<open>Claims about get_neighbors\<close>

text \<open>
  C6.  The claim: for every node present in the graph, a self-loop included,
  get_neighbors at depth 1 returns the union of successors and predecessors without the
  queried node itself.  On the graph whose only edge is the self-loop on A, the depth-1
  branch returns A itself: that branch has no counterpart of the filter
  \<^verbatim>\<open>n != node_id\<close> with which the breadth-first branch ends.
\<close>

theorem self_loop_neighbor_of_itself:
  "graph_node graph_A_A ''A'' \<noteq> None \<and>
   get_neighbors insertion_order graph_A_A ''A'' 1 = Inr [''A'']"
  by (simp add: get_neighbors_one graph_A_A_simps py_list_set_def insertion_order_def
      succ_keys_def pred_keys_def)

text \<open>
  C7.  The claim: the ids returned at depth \<open>d\<close> are among those returned at depth
  \<open>d + 1\<close>, for every \<open>d\<close> from 1 on.  On the self-loop graph depth 1 returns A and
  depth 2 returns nothing, so the inclusion fails at \<open>d = 1\<close>: the depth-1 branch keeps
  the start node and the breadth-first branch removes it.
\<close>

theorem self_loop_breaks_monotonicity:
  "get_neighbors insertion_order graph_A_A ''A'' 1 = Inr [''A''] \<and>
   get_neighbors insertion_order graph_A_A ''A'' 2 = Inr []"
  by (simp add: get_neighbors_one get_neighbors_deep graph_A_A_simps py_list_set_def
      insertion_order_def succ_keys_def pred_keys_def bfs_A_A)

text \<open>
  C5.  The claim as stated: an id that occurs only as an endpoint of an edge, and was
  never upserted as a node, is absent, and get_neighbors returns nothing for it.  After
  add_edges of the single edge A to B on the empty engine (no add_nodes at all), A is a node
  of the in-memory graph and get_neighbors returns B for it.
\<close>

theorem orphan_endpoint_has_neighbors:
  "conn_nodes graph_A_B ''A'' = None \<and> disk_nodes graph_A_B ''A'' = None \<and>
   get_neighbors insertion_order graph_A_B ''A'' 1 = Inr [''B'']"
  by (simp add: get_neighbors_one graph_A_B_simps py_list_set_def insertion_order_def
      succ_keys_def pred_keys_def)

text \<open>
  C5, as the code has it.  Orphan edges are stored and are reached by traversal: every
  edge of a successful add_edges has its row in the edges table and its pair in the
  in-memory graph, and both of its endpoints are nodes of the in-memory graph, whether or
  not they were ever upserted; when its endpoints differ, get_neighbors at depth 1 on
  either endpoint returns the other one.  For an id that is not a node of the in-memory
  graph get_neighbors returns the empty list at every depth.
\<close>

theorem orphan_edge_endpoints_are_neighbors:
  assumes "set_iteration ord"
    and "add_edges fails es s = (None, s')"
    and "e \<in> set es"
  shows "disk_edges s' (ec_source e, ec_target e, ec_type e) \<noteq> None \<and>
         map_of (graph_adj s') (ec_source e, ec_target e) \<noteq> None \<and>
         graph_node s' (ec_source e) \<noteq> None \<and> graph_node s' (ec_target e) \<noteq> None \<and>
         (ec_source e \<noteq> ec_target e \<longrightarrow>
            (\<exists>ns. get_neighbors ord s' (ec_source e) 1 = Inr ns \<and> ec_target e \<in> set ns) \<and>
            (\<exists>ns. get_neighbors ord s' (ec_target e) 1 = Inr ns \<and> ec_source e \<in> set ns)) \<and>
         (\<forall>n depth. graph_node s' n = None \<longrightarrow> get_neighbors ord s' n depth = Inr [])"
proof -
  from add_edges_stores [OF assms(2,3)]
  have k: "(ec_source e, ec_target e) \<in> fst ` set (graph_adj s')"
    and a: "graph_node s' (ec_source e) \<noteq> None" and b: "graph_node s' (ec_target e) \<noteq> None"
    by simp_all
  have row: "disk_edges s' (ec_source e, ec_target e, ec_type e) \<noteq> None"
    using assms(2,3) by (rule add_edges_row_written)
  from k have pair: "map_of (graph_adj s') (ec_source e, ec_target e) \<noteq> None"
    by (simp add: map_of_eq_None_iff)
  have "ec_target e \<in> set (py_list_set ord (succ_keys s' (ec_source e) @ pred_keys s' (ec_source e)))"
    using k by (simp add: set_py_list_set [OF assms(1)] set_succ_keys)
  moreover
  have "ec_source e \<in> set (py_list_set ord (succ_keys s' (ec_target e) @ pred_keys s' (ec_target e)))"
    using k by (simp add: set_py_list_set [OF assms(1)] set_pred_keys)
  ultimately show ?thesis
    using a b row pair by (simp add: get_neighbors_one get_neighbors_absent)
qed

theorem orphan_edge_endpoints_are_neighbors_witness:
  "set_iteration insertion_order \<and>
   add_edges never_fails [edge_A_B, edge_B_C] empty_engine = (None, graph_A_B_C) \<and>
   edge_B_C \<in> set [edge_A_B, edge_B_C] \<and>
   conn_nodes graph_A_B_C = Map.empty \<and>
   disk_edges graph_A_B_C (''B'', ''C'', ''uses'') \<noteq> None \<and>
   map_of (graph_adj graph_A_B_C) (''B'', ''C'') \<noteq> None \<and>
   graph_node graph_A_B_C ''B'' \<noteq> None \<and> graph_node graph_A_B_C ''C'' \<noteq> None \<and>
   (\<exists>ns. get_neighbors insertion_order graph_A_B_C ''B'' 1 = Inr ns \<and> ''C'' \<in> set ns) \<and>
   (\<exists>ns. get_neighbors insertion_order graph_A_B_C ''C'' 1 = Inr ns \<and> ''B'' \<in> set ns) \<and>
   graph_node graph_A_B_C ''Z'' = None \<and>
   get_neighbors insertion_order graph_A_B_C ''Z'' 1 = Inr []"
proof -
  have h1: "set_iteration insertion_order" by (rule set_iteration_insertion_order)
  have h2: "add_edges never_fails [edge_A_B, edge_B_C] empty_engine = (None, graph_A_B_C)"
    by (simp add: graph_A_B_C_def add_edges_def never_fails_def)
  have h3: "edge_B_C \<in> set [edge_A_B, edge_B_C]" by simp
  have i: "ec_source edge_B_C = ''B''" "ec_target edge_B_C = ''C''" "ec_type edge_B_C = ''uses''"
    by (simp_all add: edge_B_C_def)
  have z: "graph_node graph_A_B_C ''Z'' = None" "conn_nodes graph_A_B_C = Map.empty"
    by (simp_all add: graph_A_B_C_def add_edges_def never_fails_def edge_A_B_def edge_B_C_def
        empty_engine_def nx_add_edge_def sql_replace_edge_def commit_def ensure_node_def)
  from orphan_edge_endpoints_are_neighbors [OF h1 h2 h3] z h1 h2 h3
  show ?thesis unfolding i by simp
qed

section \<open>Facts about add_nodes and add_edges\<close>

lemma upserted_twice_simps:
  "graph_node upserted_twice ''n'' = Some [''a'' \<mapsto> PInt 1, ''b'' \<mapsto> PInt 2]"
  "disk_nodes upserted_twice ''n'' = Some [''b'' \<mapsto> PInt 2]"
  by (simp_all add: upserted_twice_def add_nodes_def never_fails_def node_n_a_def node_n_b_def
      empty_engine_def nx_add_node_def sql_replace_node_def commit_def)

lemma add_nodes_loop_Cons:
  "add_nodes_loop fails (x # xs) s =
     (if fails x then (Some DurableWriteError, nx_add_node (nc_id x) (nc_metadata x) s)
      else add_nodes_loop fails xs
             (sql_replace_node (nc_id x) (nc_metadata x) (nx_add_node (nc_id x) (nc_metadata x) s)))"
  by (simp add: Let_def)

lemma node_step_fields:
  "graph_node (sql_replace_node n m (nx_add_node n m s)) =
     (graph_node s)(n \<mapsto> (case graph_node s n of None \<Rightarrow> m | Some old \<Rightarrow> old ++ m))"
  "graph_adj (sql_replace_node n m (nx_add_node n m s)) = graph_adj s"
  "conn_nodes (sql_replace_node n m (nx_add_node n m s)) = (conn_nodes s)(n \<mapsto> m)"
  "conn_edges (sql_replace_node n m (nx_add_node n m s)) = conn_edges s"
  "disk_nodes (sql_replace_node n m (nx_add_node n m s)) = disk_nodes s"
  "disk_edges (sql_replace_node n m (nx_add_node n m s)) = disk_edges s"
  by (simp_all add: sql_replace_node_def nx_add_node_def)

lemma edge_step_fields:
  "graph_node (sql_replace_edge u v t w (nx_add_edge u v t w s)) =
     ensure_node v (ensure_node u (graph_node s))"
  "graph_adj (sql_replace_edge u v t w (nx_add_edge u v t w s)) =
     AList.update (u, v) (t, w) (graph_adj s)"
  "conn_nodes (sql_replace_edge u v t w (nx_add_edge u v t w s)) = conn_nodes s"
  "conn_edges (sql_replace_edge u v t w (nx_add_edge u v t w s)) =
     (conn_edges s)((u, v, t) \<mapsto> sqlite_real w)"
  "disk_nodes (sql_replace_edge u v t w (nx_add_edge u v t w s)) = disk_nodes s"
  "disk_edges (sql_replace_edge u v t w (nx_add_edge u v t w s)) = disk_edges s"
  "graph_node (nx_add_edge u v t w s) = ensure_node v (ensure_node u (graph_node s))"
  "graph_adj (nx_add_edge u v t w s) = AList.update (u, v) (t, w) (graph_adj s)"
  by (simp_all add: sql_replace_edge_def nx_add_edge_def)

lemma merged_attrs_eq:
  assumes "\<forall>a. old = Some a \<longrightarrow> dom a \<subseteq> dom m"
  shows "(case old of None \<Rightarrow> m | Some a \<Rightarrow> a ++ m) = m"
proof (cases old)
  case None
  then show ?thesis by simp
next
  case (Some a)
  with assms have sub: "dom a \<subseteq> dom m" by simp
  have "(a ++ m) k = m k" for k
  proof (cases "m k")
    case None
    with sub have "a k = None" by auto
    with None show ?thesis by (simp add: map_add_def)
  next
    case (Some v)
    then show ?thesis by (simp add: map_add_def)
  qed
  then have "a ++ m = m" by (rule ext)
  with Some show ?thesis by simp
qed

lemma mirrors_node_step:
  assumes "mirrors s" and cover: "\<forall>a. graph_node s n = Some a \<longrightarrow> dom a \<subseteq> dom m"
  shows "mirrors (sql_replace_node n m (nx_add_node n m s))"
proof -
  let ?s' = "sql_replace_node n m (nx_add_node n m s)"
  from assms(1) have
    a: "\<And>x. graph_node s x \<noteq> None \<longleftrightarrow>
            (conn_nodes s x \<noteq> None \<or>
             (\<exists>y t. conn_edges s (x, y, t) \<noteq> None \<or> conn_edges s (y, x, t) \<noteq> None))" and
    b: "\<And>x mm. conn_nodes s x = Some mm \<Longrightarrow> graph_node s x = Some mm" and
    c: "\<And>u v t w. map_of (graph_adj s) (u, v) = Some (t, w) \<Longrightarrow>
                   conn_edges s (u, v, t) = Some (sqlite_real w)" and
    d: "\<And>u v t. conn_edges s (u, v, t) \<noteq> None \<Longrightarrow> map_of (graph_adj s) (u, v) \<noteq> None"
    unfolding mirrors_def by blast+
  have a': "graph_node ?s' x \<noteq> None \<longleftrightarrow>
            (conn_nodes ?s' x \<noteq> None \<or>
             (\<exists>y t. conn_edges ?s' (x, y, t) \<noteq> None \<or> conn_edges ?s' (y, x, t) \<noteq> None))" for x
    using a [of x] by (cases "x = n") (simp_all add: node_step_fields)
  have b': "graph_node ?s' x = Some mm" if "conn_nodes ?s' x = Some mm" for x mm
  proof (cases "x = n")
    case True
    with that have "mm = m" by (simp add: node_step_fields)
    with True show ?thesis by (simp add: node_step_fields merged_attrs_eq [OF cover])
  next
    case False
    with that have "conn_nodes s x = Some mm" by (simp add: node_step_fields)
    from b [OF this] False show ?thesis by (simp add: node_step_fields)
  qed
  have c': "conn_edges ?s' (u, v, t) = Some (sqlite_real w)"
    if "map_of (graph_adj ?s') (u, v) = Some (t, w)" for u v t w
    using that c by (simp add: node_step_fields)
  have d': "map_of (graph_adj ?s') (u, v) \<noteq> None" if "conn_edges ?s' (u, v, t) \<noteq> None" for u v t
    using that d [of u v t] by (simp add: node_step_fields)
  show ?thesis
    unfolding mirrors_def using a' b' c' d' by blast
qed

lemma ensure_node_iff: "ensure_node m nd x \<noteq> None \<longleftrightarrow> x = m \<or> nd x \<noteq> None"
  by (cases "nd m") (auto simp: ensure_node_def)

lemma ensure_node_Some: "nd x = Some a \<Longrightarrow> ensure_node m nd x = Some a"
  by (cases "nd m") (auto simp: ensure_node_def)

lemma mirrors_edge_step:
  assumes "mirrors s"
  shows "mirrors (sql_replace_edge e1 e2 ty wt (nx_add_edge e1 e2 ty wt s))"
proof -
  let ?s' = "sql_replace_edge e1 e2 ty wt (nx_add_edge e1 e2 ty wt s)"
  from assms have
    a: "\<And>x. graph_node s x \<noteq> None \<longleftrightarrow>
            (conn_nodes s x \<noteq> None \<or>
             (\<exists>y t. conn_edges s (x, y, t) \<noteq> None \<or> conn_edges s (y, x, t) \<noteq> None))" and
    b: "\<And>x mm. conn_nodes s x = Some mm \<Longrightarrow> graph_node s x = Some mm" and
    c: "\<And>u v t w. map_of (graph_adj s) (u, v) = Some (t, w) \<Longrightarrow>
                   conn_edges s (u, v, t) = Some (sqlite_real w)" and
    d: "\<And>u v t. conn_edges s (u, v, t) \<noteq> None \<Longrightarrow> map_of (graph_adj s) (u, v) \<noteq> None"
    unfolding mirrors_def by blast+
  have gn: "graph_node ?s' x \<noteq> None \<longleftrightarrow> x = e1 \<or> x = e2 \<or> graph_node s x \<noteq> None" for x
    unfolding edge_step_fields(1) ensure_node_iff by blast
  have ce: "conn_edges ?s' k \<noteq> None \<longleftrightarrow> k = (e1, e2, ty) \<or> conn_edges s k \<noteq> None" for k
    by (simp add: edge_step_fields)
  have a': "graph_node ?s' x \<noteq> None \<longleftrightarrow>
            (conn_nodes ?s' x \<noteq> None \<or>
             (\<exists>y t. conn_edges ?s' (x, y, t) \<noteq> None \<or> conn_edges ?s' (y, x, t) \<noteq> None))" for x
    unfolding gn ce using a [of x] by (auto simp: edge_step_fields)
  have b': "graph_node ?s' x = Some mm" if "conn_nodes ?s' x = Some mm" for x mm
  proof -
    from that have "conn_nodes s x = Some mm" by (simp add: edge_step_fields)
    from b [OF this] show ?thesis by (simp add: edge_step_fields ensure_node_Some)
  qed
  have c': "conn_edges ?s' (u, v, t) = Some (sqlite_real w)"
    if "map_of (graph_adj ?s') (u, v) = Some (t, w)" for u v t w
  proof (cases "(u, v) = (e1, e2)")
    case True
    with that show ?thesis by (simp add: edge_step_fields AList.update_conv')
  next
    case False
    with that have "map_of (graph_adj s) (u, v) = Some (t, w)"
      by (auto simp: edge_step_fields AList.update_conv' split: if_splits)
    from c [OF this] False show ?thesis by (auto simp: edge_step_fields)
  qed
  have d': "map_of (graph_adj ?s') (u, v) \<noteq> None" if "conn_edges ?s' (u, v, t) \<noteq> None" for u v t
  proof (cases "(u, v) = (e1, e2)")
    case True
    then show ?thesis by (simp add: edge_step_fields AList.update_conv')
  next
    case False
    with that have "conn_edges s (u, v, t) \<noteq> None" by (auto simp: edge_step_fields)
    from d [OF this] False show ?thesis by (auto simp: edge_step_fields AList.update_conv')
  qed
  show ?thesis
    unfolding mirrors_def using a' b' c' d' by blast
qed


lemma mirrors_commit: "mirrors (commit s) = mirrors s"
  by (simp add: mirrors_def commit_def)

lemma nx_add_node_other:
  "k \<noteq> n \<Longrightarrow> graph_node (sql_replace_node n m (nx_add_node n m s)) k = graph_node s k"
  by (simp add: node_step_fields)

lemma replaces_Cons:
  assumes "replaces s (x # xs)"
  shows "\<forall>a. graph_node s (nc_id x) = Some a \<longrightarrow> dom a \<subseteq> dom (nc_metadata x)"
    and "replaces (sql_replace_node (nc_id x) (nc_metadata x)
                     (nx_add_node (nc_id x) (nc_metadata x) s)) xs"
proof -
  from assms show "\<forall>a. graph_node s (nc_id x) = Some a \<longrightarrow> dom a \<subseteq> dom (nc_metadata x)"
    by (simp add: replaces_def)
  from assms have d: "distinct (map nc_id xs)" and fresh: "nc_id x \<notin> nc_id ` set xs"
    and rest: "\<forall>node\<in>set xs. \<forall>a. graph_node s (nc_id node) = Some a \<longrightarrow>
                  dom a \<subseteq> dom (nc_metadata node)"
    by (simp_all add: replaces_def)
  have "graph_node (sql_replace_node (nc_id x) (nc_metadata x)
            (nx_add_node (nc_id x) (nc_metadata x) s)) (nc_id node) = graph_node s (nc_id node)"
    if "node \<in> set xs" for node
  proof -
    from that have "nc_id node \<in> nc_id ` set xs" by (rule imageI)
    with fresh have "nc_id node \<noteq> nc_id x" by metis
    then show ?thesis by (rule nx_add_node_other)
  qed
  with d rest show "replaces (sql_replace_node (nc_id x) (nc_metadata x)
                     (nx_add_node (nc_id x) (nc_metadata x) s)) xs"
    by (simp add: replaces_def)
qed

lemma mirrors_nodes_loop:
  "mirrors s \<Longrightarrow> replaces s xs \<Longrightarrow> add_nodes_loop fails xs s = (None, s') \<Longrightarrow> mirrors s'"
proof (induction xs arbitrary: s)
  case Nil
  then show ?case by simp
next
  case (Cons x xs)
  let ?s2 = "sql_replace_node (nc_id x) (nc_metadata x) (nx_add_node (nc_id x) (nc_metadata x) s)"
  have ok: "\<not> fails x"
  proof
    assume "fails x"
    with Cons.prems(3) show False by (simp only: add_nodes_loop_Cons if_True) simp
  qed
  with Cons.prems(3) have rest: "add_nodes_loop fails xs ?s2 = (None, s')"
    by (simp only: add_nodes_loop_Cons if_False)
  from Cons.prems(1) replaces_Cons(1) [OF Cons.prems(2)] have "mirrors ?s2"
    by (rule mirrors_node_step)
  then show ?case using replaces_Cons(2) [OF Cons.prems(2)] rest by (rule Cons.IH)
qed

lemma mirrors_edges_loop:
  "mirrors s \<Longrightarrow> add_edges_loop fails xs s = (None, s') \<Longrightarrow> mirrors s'"
proof (induction xs arbitrary: s)
  case Nil
  then show ?case by simp
next
  case (Cons x xs)
  let ?s2 = "sql_replace_edge (ec_source x) (ec_target x) (ec_type x) (ec_weight x)
               (nx_add_edge (ec_source x) (ec_target x) (ec_type x) (ec_weight x) s)"
  have ok: "\<not> fails x"
  proof
    assume "fails x"
    with Cons.prems(2) show False by (simp only: add_edges_loop_Cons if_True) simp
  qed
  with Cons.prems(2) have rest: "add_edges_loop fails xs ?s2 = (None, s')"
    by (simp only: add_edges_loop_Cons if_False)
  from Cons.prems(1) have "mirrors ?s2" by (rule mirrors_edge_step)
  then show ?case using rest by (rule Cons.IH)
qed

lemma add_nodes_success:
  assumes "add_nodes fails xs s = (None, s')" and "xs \<noteq> []"
  shows "\<exists>t. add_nodes_loop fails xs s = (None, t) \<and> s' = commit t"
proof (cases "add_nodes_loop fails xs s")
  case (Pair r t)
  show ?thesis
  proof (cases r)
    case None
    with Pair assms show ?thesis by (simp add: add_nodes_def)
  next
    case (Some e)
    with Pair assms show ?thesis by (simp add: add_nodes_def)
  qed
qed

lemma write_through_commit: "mirrors t \<Longrightarrow> write_through (commit t)"
  by (simp add: write_through_def mirrors_commit) (simp add: commit_def)

lemma write_through_add_nodes:
  assumes "write_through s" and "add_nodes fails xs s = (None, s')" and "replaces s xs"
  shows "write_through s'"
proof (cases "xs = []")
  case True
  with assms show ?thesis by (simp add: add_nodes_def)
next
  case False
  from add_nodes_success [OF assms(2) False]
  obtain t where loop: "add_nodes_loop fails xs s = (None, t)" and s': "s' = commit t" by blast
  from assms(1) have "mirrors s" by (simp add: write_through_def)
  then have "mirrors t" using assms(3) loop by (rule mirrors_nodes_loop)
  then show ?thesis unfolding s' by (rule write_through_commit)
qed

lemma write_through_add_edges:
  assumes "write_through s" and "add_edges fails xs s = (None, s')"
  shows "write_through s'"
proof (cases "xs = []")
  case True
  with assms show ?thesis by (simp add: add_edges_def)
next
  case False
  from add_edges_success [OF assms(2) False]
  obtain t where loop: "add_edges_loop fails xs s = (None, t)" and s': "s' = commit t" by blast
  from assms(1) have "mirrors s" by (simp add: write_through_def)
  then have "mirrors t" using loop by (rule mirrors_edges_loop)
  then show ?thesis unfolding s' by (rule write_through_commit)
qed

lemma write_through_empty: "write_through empty_engine"
  by (simp add: write_through_def mirrors_def empty_engine_def)

text \<open>The state left by the two upserts of the same id is not a write-through state.\<close>

lemma upserted_twice_not_write_through: "\<not> write_through upserted_twice"
proof
  assume "write_through upserted_twice"
  then have "\<forall>n m. conn_nodes upserted_twice n = Some m \<longrightarrow> graph_node upserted_twice n = Some m"
    and "disk_nodes upserted_twice = conn_nodes upserted_twice"
    by (simp_all add: write_through_def mirrors_def)
  with upserted_twice_simps(2)
  have "graph_node upserted_twice ''n'' = Some [''b'' \<mapsto> PInt 2]" by simp
  with upserted_twice_simps(1) have "[''a'' \<mapsto> PInt 1, ''b'' \<mapsto> PInt 2] = [''b'' \<mapsto> PInt 2]"
    by simp
  then have "[''a'' \<mapsto> PInt 1, ''b'' \<mapsto> PInt 2] ''a'' = [''b'' \<mapsto> PInt 2] ''a''" by simp
  then show False by simp
qed

lemma add_nodes_example:
  "add_nodes never_fails [node_n_a] empty_engine =
     (None, snd (add_nodes never_fails [node_n_a] empty_engine))"
  by (simp add: add_nodes_def never_fails_def)

lemma add_nodes_loop_append:
  "\<forall>p\<in>set pre. \<not> fails p \<Longrightarrow>
   fst (add_nodes_loop fails pre s) = None \<and>
   add_nodes_loop fails (pre @ rest) s = add_nodes_loop fails rest (snd (add_nodes_loop fails pre s))"
proof (induction pre arbitrary: s)
  case Nil
  then show ?case by simp
next
  case (Cons x pre)
  let ?s2 = "sql_replace_node (nc_id x) (nc_metadata x) (nx_add_node (nc_id x) (nc_metadata x) s)"
  from Cons.prems have ok: "\<not> fails x" and pre: "\<forall>p\<in>set pre. \<not> fails p" by simp_all
  from ok have "add_nodes_loop fails (x # pre) s = add_nodes_loop fails pre ?s2"
    and "add_nodes_loop fails ((x # pre) @ rest) s = add_nodes_loop fails (pre @ rest) ?s2"
    by (simp_all only: add_nodes_loop_Cons append_Cons if_False)
  with Cons.IH [OF pre, of ?s2] show ?case by simp
qed

lemma add_edges_loop_append:
  "\<forall>p\<in>set pre. \<not> fails p \<Longrightarrow>
   fst (add_edges_loop fails pre s) = None \<and>
   add_edges_loop fails (pre @ rest) s = add_edges_loop fails rest (snd (add_edges_loop fails pre s))"
proof (induction pre arbitrary: s)
  case Nil
  then show ?case by simp
next
  case (Cons x pre)
  let ?s2 = "sql_replace_edge (ec_source x) (ec_target x) (ec_type x) (ec_weight x)
               (nx_add_edge (ec_source x) (ec_target x) (ec_type x) (ec_weight x) s)"
  from Cons.prems have ok: "\<not> fails x" and pre: "\<forall>p\<in>set pre. \<not> fails p" by simp_all
  from ok have "add_edges_loop fails (x # pre) s = add_edges_loop fails pre ?s2"
    and "add_edges_loop fails ((x # pre) @ rest) s = add_edges_loop fails (pre @ rest) ?s2"
    by (simp_all only: add_edges_loop_Cons append_Cons if_False)
  with Cons.IH [OF pre, of ?s2] show ?case by simp
qed

lemma add_nodes_loop_disk:
  "disk_nodes (snd (add_nodes_loop fails xs s)) = disk_nodes s \<and>
   disk_edges (snd (add_nodes_loop fails xs s)) = disk_edges s"
proof (induction xs arbitrary: s)
  case Nil
  show ?case by simp
next
  case (Cons x xs)
  show ?case
  proof (cases "fails x")
    case True
    then show ?thesis by (simp only: add_nodes_loop_Cons if_True) (simp add: nx_add_node_def)
  next
    case False
    then show ?thesis
      by (simp only: add_nodes_loop_Cons if_False Cons.IH) (simp add: node_step_fields)
  qed
qed

lemma add_edges_loop_disk:
  "disk_nodes (snd (add_edges_loop fails xs s)) = disk_nodes s \<and>
   disk_edges (snd (add_edges_loop fails xs s)) = disk_edges s"
proof (induction xs arbitrary: s)
  case Nil
  show ?case by simp
next
  case (Cons x xs)
  show ?case
  proof (cases "fails x")
    case True
    then show ?thesis by (simp only: add_edges_loop_Cons if_True) (simp add: nx_add_edge_def)
  next
    case False
    then show ?thesis
      by (simp only: add_edges_loop_Cons if_False Cons.IH) (simp add: edge_step_fields)
  qed
qed

lemma add_nodes_fails_at:
  assumes "\<forall>p\<in>set pre. \<not> fails p" and "fails x"
  shows "add_nodes fails (pre @ x # post) s =
           (Some DurableWriteError,
            nx_add_node (nc_id x) (nc_metadata x) (snd (add_nodes_loop fails pre s)))"
proof -
  from add_nodes_loop_append [OF assms(1), of s "x # post"]
  have "add_nodes_loop fails (pre @ x # post) s =
          add_nodes_loop fails (x # post) (snd (add_nodes_loop fails pre s))" by simp
  also have "\<dots> = (Some DurableWriteError,
                  nx_add_node (nc_id x) (nc_metadata x) (snd (add_nodes_loop fails pre s)))"
    using assms(2) by (simp only: add_nodes_loop_Cons if_True)
  finally show ?thesis by (simp add: add_nodes_def)
qed

lemma add_edges_fails_at:
  assumes "\<forall>p\<in>set pre. \<not> fails p" and "fails x"
  shows "add_edges fails (pre @ x # post) s =
           (Some DurableWriteError,
            nx_add_edge (ec_source x) (ec_target x) (ec_type x) (ec_weight x)
              (snd (add_edges_loop fails pre s)))"
proof -
  from add_edges_loop_append [OF assms(1), of s "x # post"]
  have "add_edges_loop fails (pre @ x # post) s =
          add_edges_loop fails (x # post) (snd (add_edges_loop fails pre s))" by simp
  also have "\<dots> = (Some DurableWriteError,
                  nx_add_edge (ec_source x) (ec_target x) (ec_type x) (ec_weight x)
                    (snd (add_edges_loop fails pre s)))"
    using assms(2) by (simp only: add_edges_loop_Cons if_True)
  finally show ?thesis by (simp add: add_edges_def)
qed

section \<open>Claims about add_nodes and add_edges\<close>

text \<open>
  C2.  The claim: after add_nodes with (id, m1) and then with (id, m2) the store holds one
  node with that id whose metadata, in memory and in durable storage, is exactly m2.  With
  m1 = {a: 1} and m2 = {b: 2} the nodes table holds {b: 2}, as claimed, but the in-memory
  node holds {a: 1, b: 2}: the key of m1 survives there, because add_node updates the
  attribute dictionary of a node that exists.
\<close>

theorem second_upsert_merges_in_memory:
  "graph_node upserted_twice ''n'' = Some [''a'' \<mapsto> PInt 1, ''b'' \<mapsto> PInt 2] \<and>
   disk_nodes upserted_twice ''n'' = Some [''b'' \<mapsto> PInt 2] \<and>
   graph_node upserted_twice ''n'' \<noteq> Some (nc_metadata node_n_b)"
proof -
  have "[''a'' \<mapsto> PInt 1, ''b'' \<mapsto> PInt 2] ''a'' \<noteq> [''b'' \<mapsto> PInt 2] ''a''" by simp
  then have "[''a'' \<mapsto> PInt 1, ''b'' \<mapsto> PInt 2] \<noteq> [''b'' \<mapsto> PInt 2]" by metis
  then show ?thesis by (simp add: upserted_twice_simps node_n_b_def)
qed

text \<open>
  C3.  The claim as stated: after every successful add_nodes or add_edges the durable
  tables and the in-memory graph hold the same node ids with the same metadata and the
  same typed edges with the same weights.  After add_edges, on the empty engine, of two
  edges from A to B (type creates with weight 1, then type likes with weight NaN) the
  in-memory graph has the node A and the nodes table has no row for it; the edges table
  has the row of type creates and the in-memory graph has no edge of that type; and the
  in-memory edge of type likes has weight NaN where its row has NULL.
\<close>

theorem copies_differ_by_design:
  "graph_node graph_two_types ''A'' = Some Map.empty \<and>
   disk_nodes graph_two_types ''A'' = None \<and>
   graph_adj graph_two_types = [((''A'', ''B''), (''likes'', NaN))] \<and>
   disk_edges graph_two_types (''A'', ''B'', ''creates'') = Some (Some (Num 1)) \<and>
   disk_edges graph_two_types (''A'', ''B'', ''likes'') = Some None \<and>
   \<not> same_contents graph_two_types"
proof -
  have a: "graph_node graph_two_types ''A'' = Some Map.empty"
    and b: "disk_nodes graph_two_types ''A'' = None"
    and c: "graph_adj graph_two_types = [((''A'', ''B''), (''likes'', NaN))]"
    and d: "disk_edges graph_two_types (''A'', ''B'', ''creates'') = Some (Some (Num 1))"
    and e: "disk_edges graph_two_types (''A'', ''B'', ''likes'') = Some None"
    by (simp_all add: graph_two_types_def add_edges_def never_fails_def edge_A_B_def
        edge_A_B_likes_def empty_engine_def nx_add_edge_def sql_replace_edge_def commit_def
        ensure_node_def sqlite_real_def)
  from a b have "graph_node graph_two_types \<noteq> disk_nodes graph_two_types"
    by (metis option.distinct(1))
  with a b c d e show ?thesis by (simp add: same_contents_def)
qed

text \<open>
  C3, as the code has it.  Started in a state that satisfies \<open>write_through\<close> (the empty
  engine does), every successful add_edges, and every successful add_nodes of a batch
  that \<open>replaces\<close>, ends in such a state: nothing is pending; the in-memory node ids are
  the ids of the nodes table together with the endpoints of the rows of the edges table;
  a node with a row in the nodes table has exactly the stored metadata in memory; each
  in-memory edge (one per source and target) has the row with its type, holding its
  weight as SQLite stores it (NULL for NaN); and the pair of each row is an in-memory
  edge.  (What a batch that does not replace leaves behind is the subject of C2.)
\<close>

theorem write_through_preserved:
  assumes "write_through s"
  shows "(add_nodes nfails nodes s = (None, s1) \<and> replaces s nodes \<longrightarrow> write_through s1) \<and>
         (add_edges efails edges s = (None, s2) \<longrightarrow> write_through s2)"
  using assms write_through_add_nodes write_through_add_edges by blast

theorem write_through_preserved_witness:
  "write_through empty_engine \<and>
   add_edges never_fails [edge_A_B, edge_A_B_likes] empty_engine = (None, graph_two_types) \<and>
   write_through graph_two_types \<and>
   add_nodes never_fails [node_A] graph_two_types =
     (None, snd (add_nodes never_fails [node_A] graph_two_types)) \<and>
   replaces graph_two_types [node_A] \<and>
   write_through (snd (add_nodes never_fails [node_A] graph_two_types))"
proof -
  have e: "add_edges never_fails [edge_A_B, edge_A_B_likes] empty_engine = (None, graph_two_types)"
    by (simp add: graph_two_types_def add_edges_def never_fails_def)
  from write_through_preserved [OF write_through_empty] e
  have w: "write_through graph_two_types" by blast
  have n: "add_nodes never_fails [node_A] graph_two_types =
             (None, snd (add_nodes never_fails [node_A] graph_two_types))"
    by (simp add: add_nodes_def never_fails_def)
  have "graph_node graph_two_types ''A'' = Some Map.empty"
    by (simp add: graph_two_types_def add_edges_def never_fails_def edge_A_B_def
        edge_A_B_likes_def empty_engine_def nx_add_edge_def sql_replace_edge_def commit_def
        ensure_node_def)
  then have r: "replaces graph_two_types [node_A]"
    by (simp add: replaces_def node_A_def)
  from write_through_preserved [OF w] n r
  have "write_through (snd (add_nodes never_fails [node_A] graph_two_types))" by blast
  with write_through_empty e w n r show ?thesis by blast
qed

text \<open>
  C4.  The claim as stated: when the durable write of a record fails, the in-memory graph
  has not been mutated for that record.  On the empty engine, add_nodes of one node whose
  write fails raises, and the node is in the in-memory graph afterwards.
\<close>

theorem failed_write_after_memory_update:
  "graph_node empty_engine ''n'' = None \<and>
   fst (add_nodes always_fails [node_n_a] empty_engine) = Some DurableWriteError \<and>
   graph_node (snd (add_nodes always_fails [node_n_a] empty_engine)) ''n'' = Some [''a'' \<mapsto> PInt 1]"
  by (simp add: add_nodes_def always_fails_def node_n_a_def empty_engine_def nx_add_node_def)

text \<open>
  C4, as the code has it.  In add_nodes, and likewise in add_edges, the in-memory update
  of each record precedes its durable write.  When the write of a record fails after the
  records before it succeeded, the call raises; the in-memory graph then holds the
  updates of the earlier records and of the failing record itself, the connection holds
  the writes of the earlier records only, nothing has been committed, and the records
  after the failing one are untouched.
\<close>

theorem failing_record_already_in_memory:
  assumes "\<forall>p\<in>set npre. \<not> nfails p" and "nfails x"
    and "\<forall>p\<in>set epre. \<not> efails p" and "efails y"
  shows "add_nodes nfails (npre @ x # npost) s =
           (Some DurableWriteError,
            nx_add_node (nc_id x) (nc_metadata x) (snd (add_nodes_loop nfails npre s))) \<and>
         fst (add_nodes_loop nfails npre s) = None \<and>
         graph_node (snd (add_nodes nfails (npre @ x # npost) s)) (nc_id x) \<noteq> None \<and>
         conn_nodes (snd (add_nodes nfails (npre @ x # npost) s)) =
           conn_nodes (snd (add_nodes_loop nfails npre s)) \<and>
         disk_nodes (snd (add_nodes nfails (npre @ x # npost) s)) = disk_nodes s \<and>
         add_edges efails (epre @ y # epost) s =
           (Some DurableWriteError,
            nx_add_edge (ec_source y) (ec_target y) (ec_type y) (ec_weight y)
              (snd (add_edges_loop efails epre s))) \<and>
         fst (add_edges_loop efails epre s) = None \<and>
         map_of (graph_adj (snd (add_edges efails (epre @ y # epost) s))) (ec_source y, ec_target y) =
           Some (ec_type y, ec_weight y) \<and>
         conn_edges (snd (add_edges efails (epre @ y # epost) s)) =
           conn_edges (snd (add_edges_loop efails epre s)) \<and>
         disk_edges (snd (add_edges efails (epre @ y # epost) s)) = disk_edges s"
proof -
  note n = add_nodes_fails_at [OF assms(1,2), of npost s]
  note e = add_edges_fails_at [OF assms(3,4), of epost s]
  have "graph_node (nx_add_node (nc_id x) (nc_metadata x) t) (nc_id x) \<noteq> None" for t
    by (simp add: nx_add_node_def)
  moreover have "conn_nodes (nx_add_node (nc_id x) (nc_metadata x) t) = conn_nodes t"
    and "disk_nodes (nx_add_node (nc_id x) (nc_metadata x) t) = disk_nodes t" for t
    by (simp_all add: nx_add_node_def)
  moreover have "map_of (graph_adj (nx_add_edge (ec_source y) (ec_target y) (ec_type y) (ec_weight y) t))
      (ec_source y, ec_target y) = Some (ec_type y, ec_weight y)" for t
    by (simp add: nx_add_edge_def AList.update_conv')
  moreover have "conn_edges (nx_add_edge (ec_source y) (ec_target y) (ec_type y) (ec_weight y) t) = conn_edges t"
    and "disk_edges (nx_add_edge (ec_source y) (ec_target y) (ec_type y) (ec_weight y) t) = disk_edges t" for t
    by (simp_all add: nx_add_edge_def)
  moreover have "fst (add_nodes_loop nfails npre s) = None"
    using add_nodes_loop_append [OF assms(1), of s "[]"] by (rule conjunct1)
  moreover have "fst (add_edges_loop efails epre s) = None"
    using add_edges_loop_append [OF assms(3), of s "[]"] by (rule conjunct1)
  moreover have "disk_nodes (snd (add_nodes_loop nfails npre s)) = disk_nodes s"
    using add_nodes_loop_disk [of nfails npre s] by (rule conjunct1)
  moreover have "disk_edges (snd (add_edges_loop efails epre s)) = disk_edges s"
    using add_edges_loop_disk [of efails epre s] by (rule conjunct2)
  ultimately show ?thesis
    by (simp only: n e snd_conv) simp
qed

theorem failing_record_already_in_memory_witness:
  "\<not> rejects_second node_n_a \<and> rejects_second node_n_b \<and>
   \<not> rejects_self_loop edge_A_B \<and> rejects_self_loop edge_A_A \<and>
   fst (add_nodes rejects_second [node_n_a, node_n_b] empty_engine) = Some DurableWriteError \<and>
   graph_node (snd (add_nodes rejects_second [node_n_a, node_n_b] empty_engine)) ''n'' \<noteq> None \<and>
   conn_nodes (snd (add_nodes rejects_second [node_n_a, node_n_b] empty_engine)) ''n'' =
     Some [''a'' \<mapsto> PInt 1] \<and>
   disk_nodes (snd (add_nodes rejects_second [node_n_a, node_n_b] empty_engine)) = Map.empty \<and>
   fst (add_edges rejects_self_loop [edge_A_B, edge_A_A] empty_engine) = Some DurableWriteError \<and>
   map_of (graph_adj (snd (add_edges rejects_self_loop [edge_A_B, edge_A_A] empty_engine)))
     (''A'', ''A'') = Some (''mentions'', Num 1) \<and>
   conn_edges (snd (add_edges rejects_self_loop [edge_A_B, edge_A_A] empty_engine))
     (''A'', ''A'', ''mentions'') = None \<and>
   disk_edges (snd (add_edges rejects_self_loop [edge_A_B, edge_A_A] empty_engine)) = Map.empty"
proof -
  have h1: "\<forall>p\<in>set [node_n_a]. \<not> rejects_second p"
    by (simp add: rejects_second_def node_n_a_def)
  have h2: "rejects_second node_n_b"
    by (simp add: rejects_second_def node_n_b_def)
  have h3: "\<forall>p\<in>set [edge_A_B]. \<not> rejects_self_loop p"
    by (simp add: rejects_self_loop_def edge_A_B_def)
  have h4: "rejects_self_loop edge_A_A"
    by (simp add: rejects_self_loop_def edge_A_A_def)
  from failing_record_already_in_memory [OF h1 h2 h3 h4, of "[]" empty_engine "[]"]
  show ?thesis
    by (simp add: add_nodes_def add_edges_def rejects_second_def rejects_self_loop_def
        node_n_a_def node_n_b_def edge_A_B_def edge_A_A_def empty_engine_def
        nx_add_node_def nx_add_edge_def sql_replace_node_def sql_replace_edge_def ensure_node_def)
qed

section \<open>Facts about hybrid_search\<close>

lemmas hybrid_eval =
  hybrid_search_def hybrid_search_fp_def exact_def vector_scores_def
  get_neighbors_one get_neighbors_absent
  py_list_set_def insertion_order_def succ_keys_def pred_keys_def add_boost_def
  final_candidates_def final_candidate_def sorted_results_def py_slice_to_def ranking_def
  Let_def

lemma get_neighbors_one_total:
  "get_neighbors ord g n 1 =
     Inr (if graph_node g n = None then [] else py_list_set ord (succ_keys g n @ pred_keys g n))"
  by (simp add: get_neighbors_one get_neighbors_absent)

lemma expand_anchors_total: "\<exists>gb. expand_anchors fp ord g anchors gb0 = Inr gb"
  by (induction anchors arbitrary: gb0) (simp_all add: get_neighbors_one_total)

lemma set_iteration_single:
  assumes "set_iteration ord"
  shows "ord [x] = [x]"
proof -
  from assms have "mset (ord [x]) = mset [x]" by (simp add: set_iteration_def)
  then show ?thesis by simp
qed

lemma set_iteration_pair:
  assumes "set_iteration ord"
  shows "ord [x, y] = [x, y] \<or> ord [x, y] = [y, x]"
proof -
  from assms have m: "mset (ord [x, y]) = mset [x, y]" by (simp add: set_iteration_def)
  then have "length (ord [x, y]) = 2" using mset_eq_length by fastforce
  then obtain a b where ab: "ord [x, y] = [a, b]"
    by (metis (no_types, opaque_lifting) One_nat_def Suc_1 length_0_conv length_Suc_conv)
  with m have "{#a, b#} = {#x, y#}" by simp
  then have "(a = x \<and> b = y) \<or> (a = y \<and> b = x)"
    by (auto simp: add_eq_conv_ex)
  with ab show ?thesis by auto
qed

lemma sorted_results_descending:
  "sorted_wrt (\<lambda>a b. c_score b \<le> c_score a) (sorted_results cands)"
proof -
  have "sorted (map (\<lambda>c. - c_score c) (sorted_results cands))"
    by (simp add: sorted_results_def)
  then show ?thesis by (simp add: sorted_map)
qed

lemma py_slice_to_take: "\<exists>n. py_slice_to xs k = take n xs"
  by (auto simp: py_slice_to_def)

lemma sorted_results_stable:
  "filter (\<lambda>c. c_score c = k) (sorted_results cands) = filter (\<lambda>c. c_score c = k) cands"
proof -
  have "filter (\<lambda>c. - c_score c = - k) (sort_key (\<lambda>c. - c_score c) cands) =
        filter (\<lambda>c. - c_score c = - k) cands"
    by (rule sort_key_stable)
  then show ?thesis by (simp add: sorted_results_def)
qed

section \<open>Claims about hybrid_search\<close>

text \<open>
  C1.  The claim as stated: in the worked example (only the edge A to B, the search
  returns A with 0.9 and B with 0.4, both weights 0.5, top_k 2) the result is A with 0.45
  and B with 0.335.  The code returns A with 0.51: get_neighbors looks both ways, so A is
  a neighbour of the anchor B and carries the boost 0.3 * 0.4 = 0.12, which adds
  min(0.12, 1) * 0.5 = 0.06 to 0.9 * 0.5.
\<close>

theorem worked_example_as_computed:
  "ranking (hybrid_search insertion_order search_A_B graph_A_B ''q'' (1 / 2) (1 / 2) 2) =
     [(''A'', 51 / 100), (''B'', 67 / 200)] \<and>
   ranking (hybrid_search insertion_order search_A_B graph_A_B ''q'' (1 / 2) (1 / 2) 2) \<noteq>
     [(''A'', 45 / 100), (''B'', 335 / 1000)]"
  by (simp add: hybrid_eval search_A_B_def graph_A_B_simps)

text \<open>
  C1, as the code has it.  In the worked example the returned ranked list is A with
  score 0.51 and B with score 0.335, whatever the iteration order of the sets involved:
  the score of each anchor is its similarity times the vector weight plus the capped sum
  of 0.3 times the similarity of every anchor it neighbours, in either direction, times
  the graph weight.
\<close>

theorem worked_example_any_set_order:
  assumes "set_iteration ord"
  shows "ranking (hybrid_search ord search_A_B graph_A_B query (1 / 2) (1 / 2) 2) =
           [(''A'', 51 / 100), (''B'', 67 / 200)]"
proof -
  note one = set_iteration_single [OF assms]
  from set_iteration_pair [OF assms, of "''B''" "''A''"]
  show ?thesis
  proof
    assume "ord [''B'', ''A''] = [''B'', ''A'']"
    then show ?thesis
      by (simp add: hybrid_search_def hybrid_search_fp_def exact_def vector_scores_def
          get_neighbors_one py_list_set_def succ_keys_def pred_keys_def add_boost_def
          final_candidates_def final_candidate_def sorted_results_def py_slice_to_def ranking_def
          Let_def search_A_B_def graph_A_B_simps one)
  next
    assume "ord [''B'', ''A''] = [''A'', ''B'']"
    then show ?thesis
      by (simp add: hybrid_search_def hybrid_search_fp_def exact_def vector_scores_def
          get_neighbors_one py_list_set_def succ_keys_def pred_keys_def add_boost_def
          final_candidates_def final_candidate_def sorted_results_def py_slice_to_def ranking_def
          Let_def search_A_B_def graph_A_B_simps one)
  qed
qed

theorem worked_example_any_set_order_witness:
  "set_iteration insertion_order \<and>
   ranking (hybrid_search insertion_order search_A_B graph_A_B ''what creates B'' (1 / 2) (1 / 2) 2) =
     [(''A'', 51 / 100), (''B'', 67 / 200)]"
  using worked_example_any_set_order [OF set_iteration_insertion_order, of "''what creates B''"]
    set_iteration_insertion_order
  by simp

text \<open>
  C8.  The claim as stated: candidates with equal final score appear in ascending
  lexical order of their id.  With no edges and a search that returns B and A, both with
  0.5, under a set order that enumerates B before A the result is B, then A, with equal
  scores.
\<close>

theorem equal_scores_keep_set_order:
  "ranking (hybrid_search insertion_order search_tie empty_engine ''q'' (1 / 2) (1 / 2) 2) =
     [(''B'', 1 / 4), (''A'', 1 / 4)] \<and> lex_less ''A'' ''B''"
  by (simp add: hybrid_eval search_tie_def empty_engine_def lex_less_def)

text \<open>
  C9.  The claim as stated: with vector_weight = 1 and graph_weight = 0 the result holds
  only ids returned by the similarity search.  With the single anchor A, the edge A to B
  and top_k = 2, the result is A followed by B with score 0: B is a neighbour of A, so it
  is a candidate, and a candidate with score 0 is not dropped.
\<close>

theorem graph_only_candidate_surfaces:
  "ranking (hybrid_search insertion_order search_A graph_A_B ''q'' 1 0 2) =
     [(''A'', 9 / 10), (''B'', 0)] \<and>
   ''B'' \<notin> set (map a_id (search_A ''q'' (2 * 2)))"
  by (simp add: hybrid_eval search_A_def graph_A_B_simps)

section \<open>Sorting a list whose best elements are known\<close>

lemma strictly_sorted_keys:
  fixes f :: "'a \<Rightarrow> real"
  assumes "sorted_wrt (\<lambda>a b. f a < f b) xs"
  shows "distinct xs" and "inj_on f (set xs)" and "sorted (map f xs)"
proof -
  from assms have "sorted_wrt (<) (map f xs)" by (simp add: sorted_wrt_map)
  then have "sorted (map f xs)" and "distinct (map f xs)" by (simp_all add: strict_sorted_iff)
  then show "distinct xs" and "inj_on f (set xs)" and "sorted (map f xs)"
    by (simp_all add: distinct_map)
qed

lemma filter_only:
  assumes "distinct xs" and "k \<in> set xs" and "\<And>x. x \<in> set xs \<Longrightarrow> P x \<longleftrightarrow> x = k"
  shows "filter P xs = [k]"
  using assms
proof (induction xs)
  case Nil
  then show ?case by simp
next
  case (Cons a xs)
  show ?case
  proof (cases "a = k")
    case True
    with Cons.prems have "\<forall>x\<in>set xs. \<not> P x" by auto
    then have "filter P xs = []" by simp
    with True Cons.prems(3) [of a] show ?thesis by simp
  next
    case False
    from False Cons.prems have kx: "k \<in> set xs" and dx: "distinct xs" by auto
    have r: "\<And>x. x \<in> set xs \<Longrightarrow> P x \<longleftrightarrow> x = k" using Cons.prems(3) by simp
    have "filter P xs = [k]" using dx kx r by (rule Cons.IH)
    with False Cons.prems(3) [of a] show ?thesis by simp
  qed
qed

lemma sort_key_prefix:
  fixes f :: "'a \<Rightarrow> real"
  assumes d: "distinct cands"
    and sub: "set target \<subseteq> set cands"
    and st: "sorted_wrt (\<lambda>a b. f a < f b) target"
    and below: "\<And>t c. t \<in> set target \<Longrightarrow> c \<in> set cands \<Longrightarrow> c \<notin> set target \<Longrightarrow> f t < f c"
  shows "sort_key f cands = target @ sort_key f (filter (\<lambda>c. c \<notin> set target) cands)"
proof (rule properties_for_sort_key)
  let ?Q = "\<lambda>c. c \<notin> set target"
  let ?rest = "sort_key f (filter ?Q cands)"
  note dt = strictly_sorted_keys(1) [OF st]
  note inj = strictly_sorted_keys(2) [OF st]
  note so = strictly_sorted_keys(3) [OF st]
  have rest_set: "set ?rest = {c \<in> set cands. c \<notin> set target}" by auto
  show "mset (target @ ?rest) = mset cands"
  proof -
    have "set target = set (filter (\<lambda>c. c \<in> set target) cands)" using sub by auto
    with dt d have "mset target = mset (filter (\<lambda>c. c \<in> set target) cands)"
      by (simp only: set_eq_iff_mset_eq_distinct [symmetric] distinct_filter)
    then have "mset (target @ ?rest) =
        mset (filter (\<lambda>c. c \<in> set target) cands) + mset (filter ?Q cands)" by simp
    also have "\<dots> = mset cands"
      using multiset_partition [of "mset cands" "\<lambda>c. c \<in> set target"] by simp
    finally show ?thesis .
  qed
  show "sorted (map f (target @ ?rest))"
    using so below by (auto simp: sorted_append less_imp_le)
  fix k
  assume k: "k \<in> set (target @ ?rest)"
  show "filter (\<lambda>x. f k = f x) (target @ ?rest) = filter (\<lambda>x. f k = f x) cands"
  proof (cases "k \<in> set target")
    case True
    have only_t: "x \<in> set target \<Longrightarrow> (f k = f x) \<longleftrightarrow> x = k" for x
      using inj True by (auto dest: inj_onD)
    have only_c: "x \<in> set cands \<Longrightarrow> (f k = f x) \<longleftrightarrow> x = k" for x
    proof (cases "x \<in> set target")
      case True
      then show ?thesis by (rule only_t)
    next
      case False
      assume "x \<in> set cands"
      with below [OF True this False] True False show ?thesis by auto
    qed
    have "filter (\<lambda>x. f k = f x) target = [k]"
      using dt True only_t by (rule filter_only)
    moreover have "filter (\<lambda>x. f k = f x) ?rest = []"
    proof -
      have "f k \<noteq> f x" if "x \<in> set ?rest" for x
      proof -
        from that have "x \<in> set cands" and "x \<notin> set target" by auto
        with below [OF True] have "f k < f x" by blast
        then show ?thesis by simp
      qed
      then show ?thesis by (simp add: filter_empty_conv)
    qed
    moreover have "filter (\<lambda>x. f k = f x) cands = [k]"
      using d _ only_c by (rule filter_only) (use True sub in auto)
    ultimately show ?thesis by simp
  next
    case False
    with k have kc: "k \<in> set cands" by auto
    have "filter (\<lambda>x. f k = f x) target = []"
    proof -
      have "f k \<noteq> f x" if "x \<in> set target" for x
        using below [OF that kc False] by simp
      then show ?thesis by (simp add: filter_empty_conv)
    qed
    moreover have "filter (\<lambda>x. f k = f x) ?rest = filter (\<lambda>x. f k = f x) (filter ?Q cands)"
      using sort_key_stable [of f "f k" "filter ?Q cands"] by (simp add: eq_commute)
    moreover have "filter (\<lambda>x. f k = f x) (filter ?Q cands) = filter (\<lambda>x. f k = f x) cands"
    proof -
      have "x \<notin> set target" if "f k = f x" for x
        using below [OF _ kc False, of x] that by auto
      then show ?thesis unfolding filter_filter by (intro filter_cong) auto
    qed
    ultimately show ?thesis by simp
  qed
qed

section \<open>The ranking stage\<close>

lemma mset_take_le: "mset (take n xs) \<subseteq># mset xs"
proof -
  have "mset xs = mset (take n xs) + mset (drop n xs)"
    by (metis append_take_drop_id mset_append)
  then show ?thesis by simp
qed

lemma filter_take_prefix:
  "filter P (take n xs) = take (length (filter P (take n xs))) (filter P xs)"
proof -
  have "filter P xs = filter P (take n xs) @ filter P (drop n xs)"
    by (metis append_take_drop_id filter_append)
  then show ?thesis by simp
qed

lemma sorted_take_above_rest:
  assumes "sorted_wrt R xs" and "r \<in> set (take n xs)" and "c \<in> set xs" and "c \<notin> set (take n xs)"
  shows "R r c"
proof -
  from assms(3,4) have "c \<in> set (drop n xs)"
    by (metis Un_iff append_take_drop_id set_append)
  moreover from assms(1) have "sorted_wrt R (take n xs @ drop n xs)" by simp
  ultimately show ?thesis using assms(2) by (auto simp only: sorted_wrt_append)
qed

lemma length_py_slice_to:
  "length (py_slice_to xs k) =
     (if 0 \<le> k then min (nat k) (length xs) else length xs - nat (- k))"
  by (simp add: py_slice_to_def min.commute)

text \<open>
  C8, as the code has it.  Whatever the rounding of the arithmetic, hybrid_search returns
  candidates in descending order of final score, as a stable sort leaves them: every
  candidate that is left out scores no higher than every candidate returned, and among
  the candidates with one and the same final score the returned ones are the first in
  the order in which the set of candidate ids enumerates them (there is no tie-break on
  the id).  The result holds the first top_k candidates of that order (all but the last
  -top_k of them when top_k is negative).
\<close>

theorem ranking_is_stable_descending_sort:
  "\<exists>graph_boosts result.
     expand_anchors fp ord g (search query (top_k * 2)) [] = Inr graph_boosts \<and>
     hybrid_search_fp fp ord search g query vector_weight graph_weight top_k = Inr result \<and>
     (let cands = final_candidates fp ord
                    (vector_scores fp vector_weight (search query (top_k * 2)))
                    graph_boosts graph_weight
      in length result =
           (if 0 \<le> top_k then min (nat top_k) (length cands) else length cands - nat (- top_k)) \<and>
         mset result \<subseteq># mset cands \<and>
         sorted_wrt (\<lambda>a b. c_score b \<le> c_score a) result \<and>
         (\<forall>r\<in>set result. \<forall>c\<in>set cands. c \<notin> set result \<longrightarrow> c_score c \<le> c_score r) \<and>
         (\<forall>k. filter (\<lambda>c. c_score c = k) result =
                take (length (filter (\<lambda>c. c_score c = k) result))
                  (filter (\<lambda>c. c_score c = k) cands)))"
proof -
  obtain gb where gb: "expand_anchors fp ord g (search query (top_k * 2)) [] = Inr gb"
    using expand_anchors_total by blast
  let ?cands = "final_candidates fp ord (vector_scores fp vector_weight (search query (top_k * 2)))
                  gb graph_weight"
  let ?sorted = "sorted_results ?cands"
  let ?result = "py_slice_to ?sorted top_k"
  obtain n where n: "?result = take n ?sorted"
    using py_slice_to_take by blast
  have hs: "hybrid_search_fp fp ord search g query vector_weight graph_weight top_k = Inr ?result"
    by (simp add: hybrid_search_fp_def Let_def gb)
  have same: "mset ?sorted = mset ?cands" and len: "length ?sorted = length ?cands"
    and sets: "set ?sorted = set ?cands"
    by (simp_all add: sorted_results_def)
  have l: "length ?result =
      (if 0 \<le> top_k then min (nat top_k) (length ?cands) else length ?cands - nat (- top_k))"
    by (simp only: length_py_slice_to len)
  have m: "mset ?result \<subseteq># mset ?cands"
    unfolding n using mset_take_le [of n ?sorted] by (simp only: same)
  have d: "sorted_wrt (\<lambda>a b. c_score b \<le> c_score a) ?result"
    unfolding n using sorted_results_descending [of ?cands] by (rule sorted_wrt_take)
  have above: "c_score c \<le> c_score r"
    if "r \<in> set ?result" and "c \<in> set ?cands" and "c \<notin> set ?result" for r c
    using sorted_results_descending [of ?cands] that
    unfolding n sets [symmetric] by (rule sorted_take_above_rest)
  have ties: "filter (\<lambda>c. c_score c = k) ?result =
      take (length (filter (\<lambda>c. c_score c = k) ?result)) (filter (\<lambda>c. c_score c = k) ?cands)" for k
    unfolding n using filter_take_prefix [of "\<lambda>c. c_score c = k" n ?sorted]
    by (simp only: sorted_results_stable)
  from gb hs l m d above ties show ?thesis
    unfolding Let_def by blast
qed

theorem ranking_is_stable_descending_sort_witness:
  "\<exists>result.
     hybrid_search_fp exact insertion_order search_tie empty_engine ''q'' (1 / 2) (1 / 2) 1 =
       Inr result \<and>
     final_candidates exact insertion_order (vector_scores exact (1 / 2) (search_tie ''q'' (1 * 2)))
       [] (1 / 2) =
       [\<lparr>c_id = ''B'', c_score = 1 / 4, c_reason = [Vector (1 / 4)]\<rparr>,
        \<lparr>c_id = ''A'', c_score = 1 / 4, c_reason = [Vector (1 / 4)]\<rparr>] \<and>
     result = [\<lparr>c_id = ''B'', c_score = 1 / 4, c_reason = [Vector (1 / 4)]\<rparr>]"
  using ranking_is_stable_descending_sort [of exact insertion_order empty_engine search_tie
      "''q''" 1 "1 / 2" "1 / 2"]
  by (simp add: hybrid_search_fp_def exact_def vector_scores_def get_neighbors_absent
      py_list_set_def insertion_order_def final_candidates_def final_candidate_def
      sorted_results_def py_slice_to_def Let_def search_tie_def empty_engine_def)

section \<open>The ranking without graph weight\<close>

lemma update_fresh: "k \<notin> fst ` set al \<Longrightarrow> AList.update k v al = al @ [(k, v)]"
  by (induction al) auto

lemma vector_scores_fold:
  "distinct (map fst acc @ map a_id anchors) \<Longrightarrow>
   foldl (\<lambda>scores res. AList.update (a_id res) (fmul fp (a_score res) vw) scores) acc anchors =
     acc @ map (\<lambda>a. (a_id a, fmul fp (a_score a) vw)) anchors"
proof (induction anchors arbitrary: acc)
  case Nil
  then show ?case by simp
next
  case (Cons a anchors)
  from Cons.prems have fresh: "a_id a \<notin> fst ` set acc" by auto
  from Cons.prems have "distinct (map fst (acc @ [(a_id a, fmul fp (a_score a) vw)]) @ map a_id anchors)"
    by auto
  from Cons.IH [OF this] fresh show ?case by (simp add: update_fresh)
qed

lemma vector_scores_distinct:
  "distinct (map a_id anchors) \<Longrightarrow>
   vector_scores fp vw anchors = map (\<lambda>a. (a_id a, fmul fp (a_score a) vw)) anchors"
  using vector_scores_fold [of "[]" anchors fp vw] by (simp add: vector_scores_def)

lemma add_boost_keys: "fst ` set (add_boost fp b gb n) = insert n (fst ` set gb)"
  by (cases "map_of gb n") (simp_all add: add_boost_def AList.dom_update)

lemma foldl_add_boost_keys:
  "fst ` set (foldl (add_boost fp b) gb ns) = fst ` set gb \<union> set ns"
  by (induction ns arbitrary: gb) (auto simp: add_boost_keys)

lemma expand_anchors_keys:
  "expand_anchors fp ord g anchors gb0 = Inr gb \<Longrightarrow>
   fst ` set gb =
     fst ` set gb0 \<union>
     {n. \<exists>a\<in>set anchors. \<exists>ns. get_neighbors ord g (a_id a) 1 = Inr ns \<and> n \<in> set ns}"
proof (induction anchors arbitrary: gb0)
  case Nil
  then show ?case by simp
next
  case (Cons a anchors)
  obtain ns where ns: "get_neighbors ord g (a_id a) 1 = Inr ns"
    by (simp add: get_neighbors_one_total)
  let ?gb1 = "foldl (add_boost fp (fmul fp (3 / 10) (a_score a))) gb0 ns"
  from Cons.prems ns have "expand_anchors fp ord g anchors ?gb1 = Inr gb" by simp
  from Cons.IH [OF this] have
    "fst ` set gb = fst ` set gb0 \<union> set ns \<union>
       {n. \<exists>a\<in>set anchors. \<exists>ns. get_neighbors ord g (a_id a) 1 = Inr ns \<and> n \<in> set ns}"
    by (simp only: foldl_add_boost_keys)
  with ns show ?case by auto
qed

lemma sort_key_all_equal:
  assumes "\<forall>x\<in>set xs. f x = c"
  shows "sort_key f xs = xs"
proof -
  have "filter (\<lambda>y. f y = c) (sort_key f xs) = filter (\<lambda>y. f y = c) xs"
    by (rule sort_key_stable)
  moreover have "filter (\<lambda>y. f y = c) (sort_key f xs) = sort_key f xs"
    using assms by (simp add: filter_id_conv)
  moreover have "filter (\<lambda>y. f y = c) xs = xs"
    using assms by (simp add: filter_id_conv)
  ultimately show ?thesis by simp
qed


lemma final_candidate_no_graph_weight:
  assumes "neutral_ops fp"
  shows "c_id (final_candidate fp scores gb 0 n) = n"
    and "c_score (final_candidate fp scores gb 0 n) =
           (case map_of scores n of Some v \<Rightarrow> v | None \<Rightarrow> 0)"
  using assms by (simp_all add: final_candidate_def Let_def neutral_ops_def)

lemma neutral_ops_exact: "neutral_ops exact"
  by (simp add: neutral_ops_def exact_def)

lemma graph_A_B_C_simps:
  "graph_adj graph_A_B_C = [((''A'', ''B''), (''creates'', Num 1)), ((''B'', ''C''), (''uses'', Num 1))]"
  "graph_node graph_A_B_C = [''A'' \<mapsto> Map.empty, ''B'' \<mapsto> Map.empty, ''C'' \<mapsto> Map.empty]"
  by (simp_all add: graph_A_B_C_def add_edges_def never_fails_def edge_A_B_def edge_B_C_def
      empty_engine_def nx_add_edge_def sql_replace_edge_def commit_def ensure_node_def)

text \<open>
  C9, as the code has it.  With vector_weight = 1 and graph_weight = 0 and a top_k that
  is not negative, when the anchors of the similarity search have distinct ids and
  strictly decreasing positive scores, hybrid_search returns the first top_k entries of
  this list: the anchors in the order of the search, each with its similarity as score,
  followed by the graph-only candidates (the neighbours of anchors that are not anchors
  themselves), each with score 0, in the order in which the set of candidate ids
  enumerates them.  So with at least top_k anchors the result is exactly the first top_k
  anchors, and with fewer the graph-only candidates surface after them.  This holds for
  every graph, every set order and every rounding of the arithmetic that leaves
  multiplication by 1 and by 0 and addition of 0 exact.
\<close>

theorem pure_similarity_ranking:
  assumes fp: "neutral_ops fp"
    and ord: "set_iteration ord"
    and ids: "distinct (map a_id (search query (top_k * 2)))"
    and dec: "sorted_wrt (\<lambda>a b. a_score b < a_score a) (search query (top_k * 2))"
    and pos: "\<forall>a\<in>set (search query (top_k * 2)). 0 < a_score a"
    and k0: "0 \<le> top_k"
  shows "\<exists>gb cs.
           expand_anchors fp ord g (search query (top_k * 2)) [] = Inr gb \<and>
           (\<forall>n. n \<in> fst ` set gb \<longleftrightarrow>
                  (\<exists>a\<in>set (search query (top_k * 2)).
                     \<exists>ns. get_neighbors ord g (a_id a) 1 = Inr ns \<and> n \<in> set ns)) \<and>
           hybrid_search_fp fp ord search g query 1 0 top_k = Inr cs \<and>
           map (\<lambda>c. (c_id c, c_score c)) cs =
             take (nat top_k)
               (map (\<lambda>a. (a_id a, a_score a)) (search query (top_k * 2)) @
                map (\<lambda>n. (n, 0))
                  (filter (\<lambda>n. n \<notin> a_id ` set (search query (top_k * 2)))
                     (py_list_set ord (map a_id (search query (top_k * 2)) @ map fst gb)))) \<and>
           (nat top_k \<le> length (search query (top_k * 2)) \<longrightarrow>
              map (\<lambda>c. (c_id c, c_score c)) cs =
                map (\<lambda>a. (a_id a, a_score a)) (take (nat top_k) (search query (top_k * 2))))"
proof -
  let ?anchors = "search query (top_k * 2)"
  let ?sc = "map (\<lambda>a. (a_id a, a_score a)) ?anchors"
  from fp have one: "\<And>x. fmul fp x 1 = x" by (simp add: neutral_ops_def)
  have sc: "vector_scores fp 1 ?anchors = ?sc"
    using vector_scores_distinct [OF ids, of fp 1] by (simp add: one)
  obtain gb where gb: "expand_anchors fp ord g ?anchors [] = Inr gb"
    using expand_anchors_total by blast
  have keys: "n \<in> fst ` set gb \<longleftrightarrow>
      (\<exists>a\<in>set ?anchors. \<exists>ns. get_neighbors ord g (a_id a) 1 = Inr ns \<and> n \<in> set ns)" for n
    using expand_anchors_keys [OF gb] by simp
  have fst_sc: "map fst ?sc = map a_id ?anchors" by (simp add: comp_def)
  let ?ids = "py_list_set ord (map a_id ?anchors @ map fst gb)"
  let ?mk = "final_candidate fp ?sc gb 0"
  let ?cands = "map ?mk ?ids"
  let ?target = "map ?mk (map a_id ?anchors)"
  let ?others = "filter (\<lambda>n. n \<notin> a_id ` set ?anchors) ?ids"
  let ?f = "\<lambda>c. - c_score c"
  note fc = final_candidate_no_graph_weight [OF fp]
  have hs: "hybrid_search_fp fp ord search g query 1 0 top_k =
              Inr (take (nat top_k) (sorted_results ?cands))"
    using k0
    by (simp add: hybrid_search_fp_def Let_def sc gb final_candidates_def py_slice_to_def comp_def)
  have dsc: "distinct (map fst ?sc)" using ids by (simp only: fst_sc)
  have score_anchor: "c_score (?mk (a_id a)) = a_score a" if "a \<in> set ?anchors" for a
  proof -
    from that have "(a_id a, a_score a) \<in> set ?sc" by auto
    with dsc have "map_of ?sc (a_id a) = Some (a_score a)" by (rule map_of_is_SomeI)
    then show ?thesis by (simp add: fc)
  qed
  have score_other: "c_score (?mk n) = 0" if "n \<notin> a_id ` set ?anchors" for n
  proof -
    from that have "n \<notin> fst ` set ?sc" by (auto simp: image_iff)
    then have "map_of ?sc n = None" by (simp add: map_of_eq_None_iff)
    then show ?thesis by (simp add: fc)
  qed
  have inj: "inj_on ?mk A" for A
    by (rule inj_onI) (metis fc(1))
  have "distinct ?ids" using ord by (rule distinct_py_list_set)
  then have d: "distinct ?cands" by (simp add: distinct_map inj)
  have set_ids: "set ?ids = a_id ` set ?anchors \<union> fst ` set gb"
    by (simp add: set_py_list_set [OF ord])
  have sub: "set ?target \<subseteq> set ?cands"
  proof
    fix t
    assume "t \<in> set ?target"
    then obtain a where a: "a \<in> set ?anchors" and t: "t = ?mk (a_id a)" by auto
    from a have "a_id a \<in> set ?ids" unfolding set_ids by blast
    then show "t \<in> set ?cands" unfolding t set_map by (rule imageI)
  qed
  have st: "sorted_wrt (\<lambda>a b. ?f a < ?f b) ?target"
  proof -
    have "sorted_wrt (\<lambda>a b. ?f (?mk (a_id a)) < ?f (?mk (a_id b))) ?anchors"
      using dec by (rule sorted_wrt_mono_rel [rotated]) (simp add: score_anchor)
    then show ?thesis by (simp add: sorted_wrt_map)
  qed
  have in_target: "?mk n \<in> set ?target \<longleftrightarrow> n \<in> a_id ` set ?anchors" for n
  proof
    assume "?mk n \<in> set ?target"
    then obtain a where "a \<in> set ?anchors" and "?mk n = ?mk (a_id a)" by auto
    then show "n \<in> a_id ` set ?anchors" by (metis fc(1) imageI)
  next
    assume "n \<in> a_id ` set ?anchors"
    then show "?mk n \<in> set ?target" by auto
  qed
  have below: "?f t < ?f c" if "t \<in> set ?target" and "c \<in> set ?cands" and "c \<notin> set ?target" for t c
  proof -
    from that(1) obtain a where a: "a \<in> set ?anchors" and t: "t = ?mk (a_id a)" by auto
    from that(2) obtain n where c: "c = ?mk n" by auto
    from that(3) have "?mk n \<notin> set ?target" unfolding c .
    then have "n \<notin> a_id ` set ?anchors" unfolding in_target .
    then have "c_score c = 0" unfolding c by (rule score_other)
    moreover from a pos have "0 < c_score t" unfolding t by (simp add: score_anchor)
    ultimately show ?thesis by simp
  qed
  have rest_eq: "filter (\<lambda>c. c \<notin> set ?target) ?cands = map ?mk ?others"
  proof -
    have "filter (\<lambda>c. c \<notin> set ?target) ?cands = map ?mk (filter (\<lambda>n. ?mk n \<notin> set ?target) ?ids)"
      by (simp only: filter_map comp_def)
    also have "filter (\<lambda>n. ?mk n \<notin> set ?target) ?ids = ?others"
      by (simp only: in_target)
    finally show ?thesis .
  qed
  have rest_zero: "\<forall>c\<in>set (map ?mk ?others). ?f c = 0"
    by (auto simp: score_other)
  have "sorted_results ?cands = ?target @ sort_key ?f (filter (\<lambda>c. c \<notin> set ?target) ?cands)"
    unfolding sorted_results_def using d sub st below by (rule sort_key_prefix)
  also have "sort_key ?f (filter (\<lambda>c. c \<notin> set ?target) ?cands) = map ?mk ?others"
    unfolding rest_eq using rest_zero by (rule sort_key_all_equal)
  finally have sorted: "sorted_results ?cands = ?target @ map ?mk ?others" .
  have m1: "map (\<lambda>c. (c_id c, c_score c)) ?target = map (\<lambda>a. (a_id a, a_score a)) ?anchors"
    by (simp add: fc(1) score_anchor)
  have m2: "map (\<lambda>c. (c_id c, c_score c)) (map ?mk ?others) = map (\<lambda>n. (n, 0)) ?others"
    by (simp add: fc(1) score_other)
  have res: "map (\<lambda>c. (c_id c, c_score c)) (take (nat top_k) (sorted_results ?cands)) =
      take (nat top_k) (map (\<lambda>a. (a_id a, a_score a)) ?anchors @ map (\<lambda>n. (n, 0)) ?others)"
    unfolding sorted take_map [symmetric] map_append m1 m2 ..
  have short: "take (nat top_k) (map (\<lambda>a. (a_id a, a_score a)) ?anchors @ map (\<lambda>n. (n, 0)) ?others) =
      map (\<lambda>a. (a_id a, a_score a)) (take (nat top_k) ?anchors)"
    if "nat top_k \<le> length ?anchors"
    using that by (simp add: take_map)
  from gb keys hs res short show ?thesis by (metis (no_types, lifting))
qed

theorem pure_similarity_ranking_witness:
  "neutral_ops exact \<and> set_iteration insertion_order \<and>
   distinct (map a_id (search_A_B ''q'' (3 * 2))) \<and>
   sorted_wrt (\<lambda>a b. a_score b < a_score a) (search_A_B ''q'' (3 * 2)) \<and>
   search_A_B ''q'' (3 * 2) = [\<lparr>a_id = ''A'', a_score = 9 / 10\<rparr>, \<lparr>a_id = ''B'', a_score = 4 / 10\<rparr>] \<and>
   (0::int) \<le> 3 \<and>
   (\<exists>cs. hybrid_search_fp exact insertion_order search_A_B graph_A_B_C ''q'' 1 0 3 = Inr cs \<and>
         map (\<lambda>c. (c_id c, c_score c)) cs = [(''A'', 9 / 10), (''B'', 4 / 10), (''C'', 0)])"
proof -
  have h3: "distinct (map a_id (search_A_B ''q'' (3 * 2)))" by (simp add: search_A_B_def)
  have h4: "sorted_wrt (\<lambda>a b. a_score b < a_score a) (search_A_B ''q'' (3 * 2))"
    by (simp add: search_A_B_def)
  have h5: "\<forall>a\<in>set (search_A_B ''q'' (3 * 2)). 0 < a_score a" by (simp add: search_A_B_def)
  have h6: "(0::int) \<le> 3" by simp
  from pure_similarity_ranking [where fp = exact and ord = insertion_order
      and search = search_A_B and query = "''q''" and top_k = 3 and g = graph_A_B_C,
      OF neutral_ops_exact set_iteration_insertion_order h3 h4 h5 h6]
  obtain gb cs where
    gb: "expand_anchors exact insertion_order graph_A_B_C (search_A_B ''q'' (3 * 2)) [] = Inr gb"
    and cs: "hybrid_search_fp exact insertion_order search_A_B graph_A_B_C ''q'' 1 0 3 = Inr cs"
    and r: "map (\<lambda>c. (c_id c, c_score c)) cs =
             take (nat 3)
               (map (\<lambda>a. (a_id a, a_score a)) (search_A_B ''q'' (3 * 2)) @
                map (\<lambda>n. (n, 0))
                  (filter (\<lambda>n. n \<notin> a_id ` set (search_A_B ''q'' (3 * 2)))
                     (py_list_set insertion_order
                        (map a_id (search_A_B ''q'' (3 * 2)) @ map fst gb))))"
    by blast
  from gb have "map fst gb = [''B'', ''C'', ''A'']"
    by (auto simp: search_A_B_def get_neighbors_one graph_A_B_C_simps py_list_set_def
        insertion_order_def succ_keys_def pred_keys_def add_boost_def exact_def)
  with r have "map (\<lambda>c. (c_id c, c_score c)) cs = [(''A'', 9 / 10), (''B'', 4 / 10), (''C'', 0)]"
    by (simp add: search_A_B_def py_list_set_def insertion_order_def)
  with cs neutral_ops_exact set_iteration_insertion_order h3 h4 show ?thesis
    by (simp add: search_A_B_def)
qed

section \<open>What does hold of get_neighbors at depth 1 and beyond\<close>

text \<open>
  At depth 1 the result of get_neighbors for a node of the graph lists the successors and
  predecessors without repetition; from depth 2 on, one more level of the breadth-first
  search never loses an id.
\<close>

lemma get_neighbors_one_union:
  assumes "set_iteration ord" and "graph_node s n \<noteq> None"
  shows "\<exists>xs. get_neighbors ord s n 1 = Inr xs \<and> distinct xs \<and>
              set xs = set (succ_keys s n) \<union> set (pred_keys s n)"
  using assms
  by (simp add: get_neighbors_one set_py_list_set distinct_py_list_set)

lemma visit_node_seen:
  "set (fst acc) \<subseteq> set (fst (visit_node adj acc v))"
proof -
  have "set (fst acc) \<subseteq> set (fst (foldl (\<lambda>(seen, nextlevel) w.
              if w \<in> set seen then (seen, nextlevel) else (seen @ [w], nextlevel @ [w])) acc ws))" for ws
  proof (induction ws arbitrary: acc)
    case Nil
    show ?case by simp
  next
    case (Cons w ws)
    obtain seen nl where acc: "acc = (seen, nl)" by (cases acc)
    show ?case
      using Cons.IH [of "if w \<in> set seen then (seen, nl) else (seen @ [w], nl @ [w])"]
      by (auto simp: acc)
  qed
  then show ?thesis by (simp add: visit_node_def)
qed

lemma visit_level_seen:
  "set seen \<subseteq> set (fst (visit_level adj seen thislevel))"
proof -
  have "set (fst acc) \<subseteq> set (fst (foldl (visit_node adj) acc vs))" for acc vs
  proof (induction vs arbitrary: acc)
    case Nil
    show ?case by simp
  next
    case (Cons v vs)
    from visit_node_seen [of acc adj v] Cons.IH [of "visit_node adj acc v"]
    show ?case by auto
  qed
  from this [of "(seen, [])" thislevel] show ?thesis by (simp add: visit_level_def)
qed

lemma bfs_loop_seen: "set seen \<subseteq> set (bfs_loop adj k seen nextlevel)"
proof (induction k arbitrary: seen nextlevel)
  case 0
  show ?case by simp
next
  case (Suc k)
  show ?case
  proof (cases "nextlevel = []")
    case True
    then show ?thesis by simp
  next
    case False
    obtain seen' nl' where vl: "visit_level adj seen nextlevel = (seen', nl')"
      by (cases "visit_level adj seen nextlevel")
    from visit_level_seen [of seen adj nextlevel] vl have "set seen \<subseteq> set seen'" by simp
    with Suc.IH [of seen' nl'] False vl show ?thesis by auto
  qed
qed

lemma bfs_loop_mono:
  "set (bfs_loop adj k seen nextlevel) \<subseteq> set (bfs_loop adj (Suc k) seen nextlevel)"
proof (induction k arbitrary: seen nextlevel)
  case 0
  from bfs_loop_seen [of seen adj "Suc 0" nextlevel] show ?case by simp
next
  case (Suc k)
  show ?case
  proof (cases "nextlevel = []")
    case True
    then show ?thesis by simp
  next
    case False
    obtain seen' nl' where vl: "visit_level adj seen nextlevel = (seen', nl')"
      by (cases "visit_level adj seen nextlevel")
    from Suc.IH [of seen' nl'] False vl show ?thesis by simp
  qed
qed

lemma get_neighbors_deep_mono:
  assumes "2 \<le> depth"
  shows "\<exists>xs ys. get_neighbors ord s n depth = Inr xs \<and>
                get_neighbors ord s n (depth + 1) = Inr ys \<and> set xs \<subseteq> set ys"
proof (cases "graph_node s n = None")
  case True
  then show ?thesis by (simp add: get_neighbors_absent)
next
  case False
  from assms have d: "depth \<noteq> 1" "depth + 1 \<noteq> 1" and n: "nat (depth + 1) = Suc (nat depth)"
    by simp_all
  have "set (filter (\<lambda>m. m \<noteq> n) (bfs_loop (undirected_adj s) (nat depth) [n] [n])) \<subseteq>
        set (filter (\<lambda>m. m \<noteq> n) (bfs_loop (undirected_adj s) (Suc (nat depth)) [n] [n]))"
    using bfs_loop_mono [of "undirected_adj s" "nat depth" "[n]" "[n]"] by auto
  then show ?thesis
    unfolding get_neighbors_deep [OF False d(1)] get_neighbors_deep [OF False d(2)] n by blast
qed

end
